theory Spec2Isabelle
  imports Main "HOL-Library.AList"
begin

section \<open>JavaScript values and objects\<close>

text \<open>
  The program is \<^verbatim>\<open>Staticman\<close> (the entry-processing pipeline of a static-site
  comment service). Its data are JavaScript values. Numbers are restricted to the integers
  that JavaScript holds exactly and prints in decimal, of magnitude below \<open>2^53\<close>
  (timestamps and list lengths are the only numbers the code computes); objects are their
  own enumerable properties in the order they were created, which is the order
  \<^verbatim>\<open>Object.keys\<close> lists them in when no name is an array index, and behind
  them the members every plain object inherits from \<^verbatim>\<open>Object.prototype\<close>. An
  object keeps that prototype: an assignment to the inherited accessor
  \<^verbatim>\<open>__proto__\<close> creates no property, and the change of prototype it makes when the
  value assigned is an object is not followed. \<open>JFun\<close> is a built-in function, known by
  its name.
\<close>

datatype jsval =
    JUndefined
  | JNull
  | JBool bool
  | JNum int
  | JStr string
  | JArr "jsval list"
  | JObj "(string \<times> jsval) list"
  | JFun string

type_synonym obj = "(string \<times> jsval) list"

text \<open>\<^verbatim>\<open>Object.keys(o)\<close>, the own property \<^verbatim>\<open>k\<close> of \<^verbatim>\<open>o\<close>, the own
  property \<^verbatim>\<open>k\<close> set to \<^verbatim>\<open>v\<close>, \<^verbatim>\<open>delete o[k]\<close>. \<open>obj_get\<close> is what
  \<^verbatim>\<open>o[k]\<close> reads, and \<open>obj_set\<close> what \<^verbatim>\<open>o[k] = v\<close> does, when \<^verbatim>\<open>k\<close> is an
  own key or a name that \<^verbatim>\<open>Object.prototype\<close> does not have.\<close>

definition obj_keys :: "obj \<Rightarrow> string list" where
  "obj_keys ob = map fst ob"

definition obj_get :: "obj \<Rightarrow> string \<Rightarrow> jsval" where
  "obj_get ob k = (case map_of ob k of None \<Rightarrow> JUndefined | Some v \<Rightarrow> v)"

definition obj_set :: "obj \<Rightarrow> string \<Rightarrow> jsval \<Rightarrow> obj" where
  "obj_set ob k v = AList.update k v ob"

definition obj_delete :: "obj \<Rightarrow> string \<Rightarrow> obj" where
  "obj_delete ob k = AList.delete k ob"

text \<open>
  The members of \<^verbatim>\<open>Object.prototype\<close>: its functions, and the accessor
  \<^verbatim>\<open>__proto__\<close>, which reads \<^verbatim>\<open>Object.prototype\<close> itself, an object without
  enumerable properties.
\<close>

definition prototype_functions :: "string list" where
  "prototype_functions = [''constructor'', ''__defineGetter__'', ''__defineSetter__'',
     ''hasOwnProperty'', ''__lookupGetter__'', ''__lookupSetter__'', ''isPrototypeOf'',
     ''propertyIsEnumerable'', ''toString'', ''valueOf'', ''toLocaleString'']"

definition prototype_member :: "string \<Rightarrow> jsval option" where
  "prototype_member k =
     (if k = ''constructor'' then Some (JFun ''Object'')
      else if k \<in> set prototype_functions then Some (JFun k)
      else if k = ''__proto__'' then Some (JObj [])
      else None)"

text \<open>\<^verbatim>\<open>o[k]\<close> on a plain object, for any name \<^verbatim>\<open>k\<close>: the own property, else
  the inherited member, else \<^verbatim>\<open>undefined\<close>.\<close>

definition obj_index :: "obj \<Rightarrow> string \<Rightarrow> jsval" where
  "obj_index ob k =
     (case map_of ob k of
        Some v \<Rightarrow> v
      | None \<Rightarrow> (case prototype_member k of Some v \<Rightarrow> v | None \<Rightarrow> JUndefined))"

text \<open>\<^verbatim>\<open>o[k] = v\<close> on a plain object, for any name \<^verbatim>\<open>k\<close>: the own property is
  created or updated, except under the name \<^verbatim>\<open>__proto__\<close> when it is not an own
  property, which is the accessor of \<^verbatim>\<open>Object.prototype\<close>.\<close>

definition obj_put :: "obj \<Rightarrow> string \<Rightarrow> jsval \<Rightarrow> obj" where
  "obj_put ob k v =
     (if k = ''__proto__'' \<and> k \<notin> set (obj_keys ob) then ob else obj_set ob k v)"

text \<open>\<^verbatim>\<open>Object.assign(target, source)\<close>: every own property of the source, in order,
  is assigned to the target.\<close>

fun obj_assign :: "obj \<Rightarrow> obj \<Rightarrow> obj" where
  "obj_assign target [] = target"
| "obj_assign target ((k, v) # rest) = obj_assign (obj_put target k v) rest"

text \<open>An object literal has each key once.\<close>

definition wf_obj :: "obj \<Rightarrow> bool" where
  "wf_obj ob = distinct (map fst ob)"

text \<open>Truthiness (\<^verbatim>\<open>if (v)\<close>, \<^verbatim>\<open>!v\<close>, \<^verbatim>\<open>a || b\<close>, \<^verbatim>\<open>a && b\<close>).\<close>

fun truthy :: "jsval \<Rightarrow> bool" where
  "truthy JUndefined = False"
| "truthy JNull = False"
| "truthy (JBool b) = b"
| "truthy (JNum n) = (n \<noteq> 0)"
| "truthy (JStr s) = (s \<noteq> [])"
| "truthy (JArr xs) = True"
| "truthy (JObj ob) = True"
| "truthy (JFun name) = True"

section \<open>Strings\<close>

text \<open>
  A string is the sequence of the bytes of its UTF-8 encoding. The white space that
  \<^verbatim>\<open>String.prototype.trim\<close> strips is the white space and the line terminators of
  ECMAScript (as of its 2016 edition): U+0009, U+000A, U+000B, U+000C, U+000D, U+0020,
  U+00A0, U+1680, U+2000 to U+200A, U+2028, U+2029, U+202F, U+205F, U+3000 and U+FEFF,
  each listed here by its bytes.
\<close>

definition white_space :: "string list" where
  "white_space =
     [[CHR 0x09], [CHR 0x0A], [CHR 0x0B], [CHR 0x0C], [CHR 0x0D], [CHR 0x20],
      [CHR 0xC2, CHR 0xA0],
      [CHR 0xE1, CHR 0x9A, CHR 0x80],
      [CHR 0xE2, CHR 0x80, CHR 0x80], [CHR 0xE2, CHR 0x80, CHR 0x81],
      [CHR 0xE2, CHR 0x80, CHR 0x82], [CHR 0xE2, CHR 0x80, CHR 0x83],
      [CHR 0xE2, CHR 0x80, CHR 0x84], [CHR 0xE2, CHR 0x80, CHR 0x85],
      [CHR 0xE2, CHR 0x80, CHR 0x86], [CHR 0xE2, CHR 0x80, CHR 0x87],
      [CHR 0xE2, CHR 0x80, CHR 0x88], [CHR 0xE2, CHR 0x80, CHR 0x89],
      [CHR 0xE2, CHR 0x80, CHR 0x8A],
      [CHR 0xE2, CHR 0x80, CHR 0xA8], [CHR 0xE2, CHR 0x80, CHR 0xA9],
      [CHR 0xE2, CHR 0x80, CHR 0xAF],
      [CHR 0xE2, CHR 0x81, CHR 0x9F],
      [CHR 0xE3, CHR 0x80, CHR 0x80],
      [CHR 0xEF, CHR 0xBB, CHR 0xBF]]"

text \<open>Stripping from the front every leading occurrence of one of the sequences
  \<open>ws\<close>.\<close>

function strip_start :: "string list \<Rightarrow> string \<Rightarrow> string" where
  "strip_start ws s =
     (case find (\<lambda>w. w \<noteq> [] \<and> take (length w) s = w) ws of
        None \<Rightarrow> s
      | Some w \<Rightarrow> strip_start ws (drop (length w) s))"
  by pat_completeness auto

termination
proof (relation "measure (\<lambda>(ws, s). length s)")
  show "wf (measure (\<lambda>(ws, s). length s))" by simp
next
  fix ws :: "string list" and s w :: string
  assume "find (\<lambda>w. w \<noteq> [] \<and> take (length w) s = w) ws = Some w"
  then have w: "w \<noteq> []" and t: "take (length w) s = w"
    by (auto simp: find_Some_iff)
  from w t have "s \<noteq> []" by auto
  with w show "((ws, drop (length w) s), (ws, s)) \<in> measure (\<lambda>(ws, s). length s)"
    by (cases w) auto
qed

declare strip_start.simps [simp del]

text \<open>\<^verbatim>\<open>String.prototype.trim\<close>: the white space is stripped from the front, then
  from the end.\<close>

definition trim :: "string \<Rightarrow> string" where
  "trim s = rev (strip_start (map rev white_space) (rev (strip_start white_space s)))"

definition lower_char :: "char \<Rightarrow> char" where
  "lower_char c = (let n = (of_char c :: nat) in
     if 65 \<le> n \<and> n \<le> 90 then char_of (n + 32) else c)"

definition toLowerCase :: "string \<Rightarrow> string" where
  "toLowerCase s = map lower_char s"

text \<open>Decimal digits of a number, as \<^verbatim>\<open>String(n)\<close> prints an integer.\<close>

fun digits_of :: "nat \<Rightarrow> string" where
  "digits_of n = (if n < 10 then [char_of (48 + n)]
     else digits_of (n div 10) @ [char_of (48 + n mod 10)])"

declare digits_of.simps [simp del]

definition show_int :: "int \<Rightarrow> string" where
  "show_int i = (if i < 0 then CHR ''-'' # digits_of (nat (- i)) else digits_of (nat i))"

fun join_with :: "string \<Rightarrow> string list \<Rightarrow> string" where
  "join_with sep [] = []"
| "join_with sep [x] = x"
| "join_with sep (x # y # ys) = x @ sep @ join_with sep (y # ys)"

text \<open>\<^verbatim>\<open>String(v)\<close>, the conversion a template literal and
  \<^verbatim>\<open>String.prototype.replace\<close> apply to a value that is not a string.\<close>

primrec ToString :: "jsval \<Rightarrow> string" where
  "ToString JUndefined = ''undefined''"
| "ToString JNull = ''null''"
| "ToString (JBool b) = (if b then ''true'' else ''false'')"
| "ToString (JNum n) = show_int n"
| "ToString (JStr s) = s"
| "ToString (JArr xs) = join_with '','' (map (\<lambda>v. if v = JUndefined \<or> v = JNull then [] else ToString v) xs)"
| "ToString (JObj ob) = ''[object Object]''"
| "ToString (JFun name) = ''function '' @ name @ ''() { [native code] }''"

section \<open>Site configuration and errors\<close>

text \<open>
  \<^verbatim>\<open>this.siteConfig\<close> is built by \<^verbatim>\<open>SiteConfig(config, rsa)\<close>, whose module
  (\<^verbatim>\<open>siteConfig.js\<close>) is not among the sources. The pipeline only reads it through
  \<^verbatim>\<open>siteConfig.get(name)\<close>, so it is modelled as the record of the values read, each
  with the type the code uses it at; the constructor from the raw configuration is a
  parameter of the pipeline. An unset \<^verbatim>\<open>filename\<close> is the empty string; unset
  \<^verbatim>\<open>generatedFields\<close> and \<^verbatim>\<open>transforms\<close> are \<open>None\<close>.
\<close>

record site_config =
  allowedFields :: "string list"
  requiredFields :: "string list"
  format :: string
  path :: string
  filename :: string
  commitMessage :: string
  moderation :: bool
  generatedFields :: "obj option"
  transforms :: "obj option"
  akismet_enabled :: bool
  akismet_type :: string
  akismet_author :: string
  akismet_authorEmail :: string
  akismet_authorUrl :: string
  akismet_content :: string
  notifications_enabled :: bool
  pullRequestBody :: string

text \<open>The entries of the array \<^verbatim>\<open>_validateFields\<close> returns.\<close>

datatype field_error =
    MISSING_REQUIRED_FIELDS "string list"
  | INVALID_FIELDS "string list"

section \<open>Field validation (\<^verbatim>\<open>_validateFields\<close>)\<close>

text \<open>
  The first loop visits \<^verbatim>\<open>Object.keys(fields)\<close>: a field that is not allowed and
  whose value is not \<^verbatim>\<open>''\<close> is pushed to \<^verbatim>\<open>invalidFields\<close>, then a string
  value is trimmed in place. The state of the loop is the object and the list so far.
\<close>

fun validate_loop :: "string list \<Rightarrow> string list \<Rightarrow> obj \<Rightarrow> string list \<Rightarrow> obj \<times> string list" where
  "validate_loop allowed [] flds invalidFields = (flds, invalidFields)"
| "validate_loop allowed (field # rest) flds invalidFields =
     (let invalidFields' =
            (if field \<notin> set allowed \<and> obj_get flds field \<noteq> JStr []
             then invalidFields @ [field] else invalidFields);
          flds' =
            (case obj_get flds field of
               JStr s \<Rightarrow> obj_set flds field (JStr (trim s))
             | _ \<Rightarrow> flds)
      in validate_loop allowed rest flds' invalidFields')"

text \<open>The second loop visits \<^verbatim>\<open>requiredFields\<close> and reads the trimmed object;
  \<^verbatim>\<open>fields[field]\<close> sees the inherited members as well.\<close>

definition missing_required :: "string list \<Rightarrow> obj \<Rightarrow> string list" where
  "missing_required required flds =
     filter (\<lambda>field. obj_index flds field = JUndefined \<or> obj_index flds field = JStr []) required"

text \<open>The result is the \<^verbatim>\<open>errors\<close> array (\<open>None\<close> for \<^verbatim>\<open>null\<close>) and the
  object, which the code mutates.\<close>

definition validateFields :: "site_config \<Rightarrow> obj \<Rightarrow> field_error list option \<times> obj" where
  "validateFields cfg flds =
     (let (flds', invalidFields) = validate_loop (allowedFields cfg) (obj_keys flds) flds [];
          missingRequiredFields = missing_required (requiredFields cfg) flds';
          errors = (if missingRequiredFields \<noteq> [] then [MISSING_REQUIRED_FIELDS missingRequiredFields] else [])
                 @ (if invalidFields \<noteq> [] then [INVALID_FIELDS invalidFields] else [])
      in (if errors \<noteq> [] then Some errors else None, flds'))"

text \<open>The validation as the specification words it: the invalid names are read off the
  submission as submitted, every string is trimmed, the required names are read off the
  trimmed submission.\<close>

definition trim_val :: "jsval \<Rightarrow> jsval" where
  "trim_val v = (case v of JStr s \<Rightarrow> JStr (trim s) | _ \<Rightarrow> v)"

definition trimmed_fields :: "obj \<Rightarrow> obj" where
  "trimmed_fields flds = map (\<lambda>(k, v). (k, trim_val v)) flds"

definition spec_invalid :: "site_config \<Rightarrow> obj \<Rightarrow> string list" where
  "spec_invalid cfg flds =
     filter (\<lambda>k. k \<notin> set (allowedFields cfg) \<and> obj_get flds k \<noteq> JStr []) (obj_keys flds)"

definition spec_missing :: "site_config \<Rightarrow> obj \<Rightarrow> string list" where
  "spec_missing cfg flds =
     filter (\<lambda>k. obj_index (trimmed_fields flds) k = JUndefined \<or> obj_index (trimmed_fields flds) k = JStr [])
       (requiredFields cfg)"

text \<open>The names an error array reports under each code.\<close>

fun reported_invalid :: "field_error list option \<Rightarrow> string list" where
  "reported_invalid None = []"
| "reported_invalid (Some []) = []"
| "reported_invalid (Some (INVALID_FIELDS ns # es)) = ns @ reported_invalid (Some es)"
| "reported_invalid (Some (MISSING_REQUIRED_FIELDS ns # es)) = reported_invalid (Some es)"

fun reported_missing :: "field_error list option \<Rightarrow> string list" where
  "reported_missing None = []"
| "reported_missing (Some []) = []"
| "reported_missing (Some (MISSING_REQUIRED_FIELDS ns # es)) = ns @ reported_missing (Some es)"
| "reported_missing (Some (INVALID_FIELDS ns # es)) = reported_missing (Some es)"

text \<open>The object after the loop has visited the keys \<open>ks\<close> (used to state the loop
  invariant).\<close>

definition trim_keys :: "string list \<Rightarrow> obj \<Rightarrow> obj" where
  "trim_keys ks fs = map (\<lambda>(k, v). if k \<in> set ks then (k, trim_val v) else (k, v)) fs"

section \<open>Library functions the pipeline calls\<close>

text \<open>
  \<^verbatim>\<open>String.prototype.slice(begin, end)\<close>: a negative index counts from the end, and both
  are clamped to the string.
\<close>

definition slice :: "string \<Rightarrow> int \<Rightarrow> int \<Rightarrow> string" where
  "slice s b e =
     (let n = int (length s);
          from = (if b < 0 then max (n + b) 0 else min b n);
          to = (if e < 0 then max (n + e) 0 else min e n)
      in take (nat (to - from)) (drop (nat from) s))"

text \<open>\<^verbatim>\<open>s.slice(begin)\<close> runs to the end of the string.\<close>

definition slice_from :: "string \<Rightarrow> int \<Rightarrow> string" where
  "slice_from s b = slice s b (int (length s))"

text \<open>
  Property access \<^verbatim>\<open>v[k]\<close> on own properties: the keys of an object, the indices and
  the length of an array or a string.
\<close>

definition is_digit :: "char \<Rightarrow> bool" where
  "is_digit c = (let n = (of_char c :: nat) in 48 \<le> n \<and> n \<le> 57)"

fun dec_value :: "nat \<Rightarrow> string \<Rightarrow> nat" where
  "dec_value acc [] = acc"
| "dec_value acc (c # cs) = dec_value (10 * acc + (of_char c - 48)) cs"

definition index_of_key :: "string \<Rightarrow> nat option" where
  "index_of_key k =
     (if k \<noteq> [] \<and> list_all is_digit k \<and> digits_of (dec_value 0 k) = k
      then Some (dec_value 0 k) else None)"

definition js_prop :: "jsval \<Rightarrow> string \<Rightarrow> jsval" where
  "js_prop v k =
     (case v of
        JObj ob \<Rightarrow> obj_get ob k
      | JArr xs \<Rightarrow>
          (if k = ''length'' then JNum (int (length xs))
           else case index_of_key k of
                  Some i \<Rightarrow> (if i < length xs then xs ! i else JUndefined)
                | None \<Rightarrow> JUndefined)
      | JStr str \<Rightarrow>
          (if k = ''length'' then JNum (int (length str))
           else case index_of_key k of
                  Some i \<Rightarrow> (if i < length str then JStr [str ! i] else JUndefined)
                | None \<Rightarrow> JUndefined)
      | _ \<Rightarrow> JUndefined)"

text \<open>\<^verbatim>\<open>path.split('.')\<close>.\<close>

fun split_dots :: "string \<Rightarrow> string \<Rightarrow> string list" where
  "split_dots cur [] = [cur]"
| "split_dots cur (c # cs) =
     (if c = CHR ''.'' then cur # split_dots [] cs else split_dots (cur @ [c]) cs)"

text \<open>
  \<^verbatim>\<open>objectPath.get(obj, path)\<close> of the \<^verbatim>\<open>object-path\<close> package (not among the
  sources): an empty path gives the object itself; otherwise the path is split at the
  dots and walked through own properties, and the result is \<^verbatim>\<open>undefined\<close> as soon
  as a step is missing or meets \<^verbatim>\<open>null\<close>.
\<close>

fun path_walk :: "jsval \<Rightarrow> string list \<Rightarrow> jsval" where
  "path_walk v [] = v"
| "path_walk v (k # ks) =
     (if v = JUndefined \<or> v = JNull then JUndefined
      else if js_prop v k = JUndefined then JUndefined
      else path_walk (js_prop v k) ks)"

definition objectPath_get :: "jsval \<Rightarrow> string \<Rightarrow> jsval" where
  "objectPath_get v p = (if p = [] then v else path_walk v (split_dots [] p))"

section \<open>Placeholder resolution (\<^verbatim>\<open>_resolvePlaceholders\<close>)\<close>

text \<open>
  \<^verbatim>\<open>subject.match(/{(.*?)}/g)\<close>: at an opening brace the lazy \<^verbatim>\<open>.*?\<close> runs to the
  first closing brace, and fails on a line terminator (the dot does not match one); the
  scan resumes after a match, or one character further when there is none. The line
  terminators are U+000A, U+000D, U+2028 and U+2029, the last two of three bytes each.
\<close>

definition line_terminator_at :: "string \<Rightarrow> bool" where
  "line_terminator_at s =
     (case s of
        [] \<Rightarrow> False
      | c # cs \<Rightarrow>
          c = CHR 0x0A \<or> c = CHR 0x0D
          \<or> (c = CHR 0xE2 \<and> (take 2 cs = [CHR 0x80, CHR 0xA8] \<or> take 2 cs = [CHR 0x80, CHR 0xA9])))"

fun find_close :: "string \<Rightarrow> string option" where
  "find_close [] = None"
| "find_close (c # cs) =
     (if c = CHR ''}'' then Some []
      else if line_terminator_at (c # cs) then None
      else map_option (Cons c) (find_close cs))"

function matches :: "string \<Rightarrow> string list" where
  "matches [] = []"
| "matches (c # cs) =
     (if c = CHR ''{'' then
        (case find_close cs of
           Some body \<Rightarrow> (CHR ''{'' # body @ ''}'') # matches (drop (Suc (length body)) cs)
         | None \<Rightarrow> matches cs)
      else matches cs)"
  by pat_completeness auto

termination
  by (relation "measure length") auto

text \<open>
  \<^verbatim>\<open>GetSubstitution\<close> of \<^verbatim>\<open>String.prototype.replace\<close> for a pattern without
  capture groups: in the replacement text \<^verbatim>\<open>$$\<close> is a dollar, \<^verbatim>\<open>$&\<close> the matched
  text, \<^verbatim>\<open>$`\<close> the text before the match and \<^verbatim>\<open>$'\<close> the text after it; any other
  character stands for itself.
\<close>

fun get_substitution :: "string \<Rightarrow> string \<Rightarrow> string \<Rightarrow> string \<Rightarrow> string" where
  "get_substitution matched pre post [] = []"
| "get_substitution matched pre post [c] = [c]"
| "get_substitution matched pre post (c # d # r) =
     (if c = CHR ''$'' then
        (if d = CHR ''$'' then CHR ''$'' # get_substitution matched pre post r
         else if d = CHR ''&'' then matched @ get_substitution matched pre post r
         else if d = CHR 0x60 then pre @ get_substitution matched pre post r
         else if d = CHR 0x27 then post @ get_substitution matched pre post r
         else c # get_substitution matched pre post (d # r))
      else c # get_substitution matched pre post (d # r))"

text \<open>
  \<^verbatim>\<open>subject.replace(new RegExp(escapedMatch, 'g'), newText)\<close>: the escaped pattern matches
  the token literally, so every occurrence of the token, found from left to right
  without overlap, is replaced. \<open>pre\<close> is the part of the subject already scanned.
\<close>

function replace_scan :: "string \<Rightarrow> string \<Rightarrow> string \<Rightarrow> string \<Rightarrow> string" where
  "replace_scan tok new pre rest =
     (if rest = [] then []
      else if tok \<noteq> [] \<and> take (length tok) rest = tok then
        get_substitution tok pre (drop (length tok) rest) new
          @ replace_scan tok new (pre @ tok) (drop (length tok) rest)
      else hd rest # replace_scan tok new (pre @ [hd rest]) (tl rest))"
  by pat_completeness auto

termination
  by (relation "measure (\<lambda>(tok, new, pre, rest). length rest)") auto

declare replace_scan.simps [simp del]

definition replace_all :: "string \<Rightarrow> string \<Rightarrow> string \<Rightarrow> string" where
  "replace_all tok new subject = replace_scan tok new [] subject"

text \<open>
  The request object \<^verbatim>\<open>this\<close>: the fields the pipeline reads or writes.
  \<^verbatim>\<open>this.siteConfig\<close> is unset until \<^verbatim>\<open>_validateConfig\<close> succeeds;
  \<^verbatim>\<open>this.configPath\<close> is the pair \<^verbatim>\<open>{file, path}\<close> when set.
\<close>

record staticman =
  this_parameters :: obj
  this_fields :: obj
  this_options :: obj
  this_uid :: string
  this_siteConfig :: "site_config option"
  this_configPath :: "(string \<times> string) option"
  this_ip :: jsval
  this_userAgent :: jsval

text \<open>The \<^verbatim>\<open>switch (property)\<close> of the loop body: the value that replaces a token.
  \<open>now\<close> is what \<^verbatim>\<open>new Date().getTime()\<close> reads.\<close>

definition newText :: "staticman \<Rightarrow> jsval \<Rightarrow> int \<Rightarrow> string \<Rightarrow> jsval" where
  "newText this baseObject now property =
     (if property = ''@timestamp'' then JNum now
      else if property = ''@id'' then JStr (this_uid this)
      else (let v = objectPath_get baseObject property in if truthy v then v else JStr []))"

text \<open>The \<^verbatim>\<open>forEach\<close> over the matches; the \<open>i\<close>-th iteration reads the clock as
  \<open>clock i\<close>.\<close>

fun resolve_loop :: "staticman \<Rightarrow> jsval \<Rightarrow> (nat \<Rightarrow> int) \<Rightarrow> nat \<Rightarrow> string list \<Rightarrow> string \<Rightarrow> string" where
  "resolve_loop this baseObject clock i [] subject = subject"
| "resolve_loop this baseObject clock i (match # rest) subject =
     (let property = slice match 1 (- 1)
      in resolve_loop this baseObject clock (Suc i) rest
           (replace_all match (ToString (newText this baseObject (clock i) property)) subject))"

definition resolvePlaceholders :: "staticman \<Rightarrow> (nat \<Rightarrow> int) \<Rightarrow> string \<Rightarrow> jsval \<Rightarrow> string" where
  "resolvePlaceholders this clock subject baseObject =
     (case matches subject of
        [] \<Rightarrow> subject
      | ms \<Rightarrow> resolve_loop this baseObject clock 0 ms subject)"

section \<open>Target path (\<^verbatim>\<open>_getNewFilePath\<close>, \<^verbatim>\<open>_getExtensionForFormat\<close>)\<close>

definition getExtensionForFormat :: "string \<Rightarrow> jsval" where
  "getExtensionForFormat fmt =
     (let f = toLowerCase fmt in
      if f = ''json'' then JStr ''json''
      else if f = ''yaml'' \<or> f = ''yml'' then JStr ''yml''
      else if f = ''frontmatter'' then JStr ''md''
      else JUndefined)"

text \<open>The context \<^verbatim>\<open>{fields: data, options: this.options}\<close>.\<close>

definition placeholder_context :: "staticman \<Rightarrow> obj \<Rightarrow> jsval" where
  "placeholder_context this data = JObj [(''fields'', JObj data), (''options'', JObj (this_options this))]"

text \<open>The file name is resolved first (clock \<open>clock_f\<close>), then the path (clock
  \<open>clock_p\<close>).\<close>

definition getNewFilePath :: "staticman \<Rightarrow> site_config \<Rightarrow> (nat \<Rightarrow> int) \<Rightarrow> (nat \<Rightarrow> int) \<Rightarrow> obj \<Rightarrow> string" where
  "getNewFilePath this cfg clock_f clock_p data =
     (let configFilename = filename cfg;
          fname = (if configFilename \<noteq> []
                   then resolvePlaceholders this clock_f configFilename (placeholder_context this data)
                   else this_uid this);
          p = resolvePlaceholders this clock_p (path cfg) (placeholder_context this data);
          p' = (if slice_from p (- 1) = ''/'' then slice p 0 (- 1) else p);
          extension = getExtensionForFormat (format cfg)
      in p' @ ''/'' @ fname @ ''.'' @ ToString extension)"

section \<open>Errors, libraries and the outside world\<close>

text \<open>An exception thrown by the runtime or by a library.\<close>

datatype exn = TypeError | LibraryError string

text \<open>The objects \<^verbatim>\<open>_validateConfig\<close> returns.\<close>

datatype config_error =
    MISSING_CONFIG_BLOCK
  | MISSING_CONFIG_FIELDS "string list"
  | INVALID_ORIGIN
  | MISSING_ORIGIN

text \<open>
  What the promise of \<^verbatim>\<open>processEntry\<close> is rejected with: one of the strings the code
  rejects with, the object of a failed configuration check, the array of a failed field
  validation, the error of a collaborator (\<^verbatim>\<open>github.readFile\<close>, the spam classifier,
  the file write), or an exception thrown inside a step.
\<close>

datatype error =
    NO_CONFIG_PATH
  | ReadFailed jsval
  | ConfigValidationFailed exn
  | ConfigError config_error
  | BRANCH_MISMATCH
  | SpamCheckFailed jsval
  | IS_SPAM
  | FieldErrors "field_error list"
  | Thrown exn
  | NO_FRONTMATTER_CONTENT_TRANSFORM
  | INVALID_FORMAT
  | WriteFailed jsval

text \<open>
  The functions of packages and modules that are not among the sources.
  \<^item> \<open>SiteConfig\<close>. Modelled from the spec: \<^verbatim>\<open>SiteConfig(config, rsa)\<close> of
    \<^verbatim>\<open>siteConfig.js\<close> is missing; the specification says that on success the validated
    configuration becomes the cached site configuration, read through
    \<^verbatim>\<open>get\<close>, and names no failure of its own.
  \<^item> \<open>url_hostname\<close> is \<^verbatim>\<open>url.parse(s).hostname\<close>, a string or \<^verbatim>\<open>null\<close>
    (\<open>None\<close>).
  \<^item> \<open>yaml_safeDump\<close> is \<^verbatim>\<open>yaml.safeDump\<close>, which may throw.
  \<^item> \<open>JSON_stringify\<close>, \<open>md5\<close>, \<open>slugify\<close>, \<open>markdownTable\<close> are the functions of
    these names; \<open>toISOString\<close> is \<^verbatim>\<open>Date.prototype.toISOString\<close> of a time stamp.
\<close>

record lib =
  SiteConfig :: "jsval \<Rightarrow> site_config"
  url_hostname :: "string \<Rightarrow> string option"
  yaml_safeDump :: "obj \<Rightarrow> exn + string"
  JSON_stringify :: "jsval \<Rightarrow> string"
  md5 :: "jsval \<Rightarrow> exn + string"
  slugify :: "jsval \<Rightarrow> exn + string"
  toISOString :: "int \<Rightarrow> string"
  markdownTable :: "(string \<times> jsval) list \<Rightarrow> string"

text \<open>The calls the pipeline issues to its collaborators, in order.\<close>

datatype effect =
    ReadFile string
  | CheckSpam obj
  | SubscriptionSet jsval jsval
  | SubscriptionSend jsval obj obj
  | WriteFile string string jsval string
  | WriteFileAndSendPR string string string string string

text \<open>
  How the collaborators answer, and what the clock reads: \<open>Inl\<close> is a rejected promise;
  the spam classifier calls back with the pair \<^verbatim>\<open>(err, isSpam)\<close>.
\<close>

record world =
  github_readFile :: "string \<Rightarrow> jsval + jsval"
  akismet_checkSpam :: "obj \<Rightarrow> jsval \<times> jsval"
  github_writeFile :: "string \<Rightarrow> string \<Rightarrow> jsval \<Rightarrow> string \<Rightarrow> jsval + jsval"
  github_writeFileAndSendPR :: "string \<Rightarrow> string \<Rightarrow> string \<Rightarrow> string \<Rightarrow> string \<Rightarrow> jsval + jsval"
  clock_date :: "nat \<Rightarrow> int"
  clock_filename :: "nat \<Rightarrow> int"
  clock_path :: "nat \<Rightarrow> int"
  clock_commit :: "nat \<Rightarrow> int"

section \<open>Configuration validation (\<^verbatim>\<open>_validateConfig\<close>)\<close>

text \<open>Strict equality \<^verbatim>\<open>===\<close> of two values that are not the same reference: arrays
  and objects are never equal.\<close>

fun strict_eq :: "jsval \<Rightarrow> jsval \<Rightarrow> bool" where
  "strict_eq (JArr xs) v = False"
| "strict_eq (JObj ob) v = False"
| "strict_eq v (JArr xs) = False"
| "strict_eq v (JObj ob) = False"
| "strict_eq v w = (v = w)"

fun hostname_value :: "string option \<Rightarrow> jsval" where
  "hostname_value None = JNull"
| "hostname_value (Some h) = JStr h"

definition requiredConfigFields :: "string list" where
  "requiredConfigFields = [''allowedFields'', ''branch'', ''format'', ''path'']"

text \<open>
  The result is \<open>Inl\<close> for an exception (\<^verbatim>\<open>url.parse\<close> of a value that is not a
  string, \<^verbatim>\<open>some\<close> of a value that is not an array), else the returned object
  (\<open>None\<close> for \<^verbatim>\<open>null\<close>) and the request, whose \<^verbatim>\<open>siteConfig\<close> is set on
  success.
\<close>

definition validateConfig :: "lib \<Rightarrow> staticman \<Rightarrow> jsval \<Rightarrow> exn + (config_error option \<times> staticman)" where
  "validateConfig L this config =
     (if \<not> truthy config then Inr (Some MISSING_CONFIG_BLOCK, this)
      else
        (let missingFields = filter (\<lambda>requiredField. objectPath_get config requiredField = JUndefined)
                               requiredConfigFields
         in if missingFields \<noteq> [] then Inr (Some (MISSING_CONFIG_FIELDS missingFields), this)
            else
              (let allowedOrigins = js_prop config ''allowedOrigins'';
                   origin = obj_get (this_options this) ''origin'';
                   accepted = Inr (None, this\<lparr>this_siteConfig := Some (SiteConfig L config)\<rparr>)
               in if truthy allowedOrigins \<and> truthy (js_prop allowedOrigins ''length'') then
                    (if truthy origin then
                       (case origin of
                          JStr u \<Rightarrow>
                            (case allowedOrigins of
                               JArr origins \<Rightarrow>
                                 (if list_ex (\<lambda>entry. entry = hostname_value (url_hostname L u)) origins
                                  then accepted
                                  else Inr (Some INVALID_ORIGIN, this))
                             | _ \<Rightarrow> Inl TypeError)
                        | _ \<Rightarrow> Inl TypeError)
                     else Inr (Some MISSING_ORIGIN, this))
                  else accepted)))"

text \<open>
  A model of \<^verbatim>\<open>url.parse(s).hostname\<close> for addresses of the form
  \<^verbatim>\<open>scheme://[user@]host[:port][/path]\<close>: the host is lower-cased; an address
  without \<^verbatim>\<open>//\<close> has no host.
\<close>

fun after_slashes :: "string \<Rightarrow> string option" where
  "after_slashes [] = None"
| "after_slashes [c] = None"
| "after_slashes (c # d # r) =
     (if c = CHR ''/'' \<and> d = CHR ''/'' then Some r else after_slashes (d # r))"

fun after_last_at :: "string \<Rightarrow> string \<Rightarrow> string" where
  "after_last_at cur [] = cur"
| "after_last_at cur (c # cs) = (if c = CHR ''@'' then after_last_at [] cs else after_last_at (cur @ [c]) cs)"

definition simple_hostname :: "string \<Rightarrow> string option" where
  "simple_hostname s =
     (case after_slashes s of
        None \<Rightarrow> None
      | Some r \<Rightarrow>
          (let host = takeWhile (\<lambda>c. c \<noteq> CHR ''/'' \<and> c \<noteq> CHR ''?'' \<and> c \<noteq> CHR ''#'') r
           in Some (toLowerCase (takeWhile (\<lambda>c. c \<noteq> CHR '':'') (after_last_at [] host)))))"

section \<open>Internal fields (\<^verbatim>\<open>_applyInternalFields\<close>)\<close>

definition applyInternalFields :: "staticman \<Rightarrow> obj \<Rightarrow> obj" where
  "applyInternalFields this data =
     (let internalFields = [(''_id'', JStr (this_uid this))];
          parent = obj_get (this_options this) ''parent'';
          internalFields' = (if truthy parent then obj_set internalFields ''_parent'' parent
                             else internalFields)
      in obj_assign internalFields' data)"

section \<open>Serialization (\<^verbatim>\<open>_createFile\<close>)\<close>

text \<open>
  The result is the resolved text or the rejection, and the object passed in, from which
  the front matter branch deletes the content field.
\<close>

definition newline :: string where
  "newline = [CHR 0x0A]"

definition createFile :: "lib \<Rightarrow> site_config \<Rightarrow> obj \<Rightarrow> (error + string) \<times> obj" where
  "createFile L cfg flds =
     (let f = toLowerCase (format cfg) in
      if f = ''json'' then (Inr (JSON_stringify L (JObj flds)), flds)
      else if f = ''yaml'' \<or> f = ''yml'' then
        (case yaml_safeDump L flds of
           Inl err \<Rightarrow> (Inl (Thrown err), flds)
         | Inr output \<Rightarrow> (Inr output, flds))
      else if f = ''frontmatter'' then
        (let contentField =
               (case transforms cfg of
                  None \<Rightarrow> None
                | Some t \<Rightarrow> find (\<lambda>field. obj_get t field = JStr ''frontmatterContent'') (obj_keys t))
         in case contentField of
              None \<Rightarrow> (Inl NO_FRONTMATTER_CONTENT_TRANSFORM, flds)
            | Some cf \<Rightarrow>
                (if cf = [] then (Inl NO_FRONTMATTER_CONTENT_TRANSFORM, flds)
                 else
                   (let content = obj_index flds cf;
                        flds' = obj_delete flds cf
                    in case yaml_safeDump L flds' of
                         Inl err \<Rightarrow> (Inl (Thrown err), flds')
                       | Inr y \<Rightarrow>
                           (Inr (''---'' @ newline @ y @ ''---'' @ newline @ ToString content @ newline),
                            flds'))))
      else (Inl INVALID_FORMAT, flds))"

section \<open>Generated fields and transforms\<close>

text \<open>\<^verbatim>\<open>_createDate(options)\<close>; \<open>now\<close> is the time \<^verbatim>\<open>new Date()\<close> reads.\<close>

definition createDate :: "lib \<Rightarrow> int \<Rightarrow> jsval \<Rightarrow> jsval" where
  "createDate L now options =
     (let fmt = js_prop options ''format'' in
      if fmt = JStr ''timestamp'' then JNum now
      else if fmt = JStr ''timestamp-seconds'' then JNum (now div 1000)
      else JStr (toISOString L now))"

text \<open>
  The loop of \<^verbatim>\<open>_applyGeneratedFields\<close> over the keys of \<^verbatim>\<open>generatedFields\<close>.
  \<^verbatim>\<open>typeof null\<close> is \<^verbatim>\<open>'object'\<close>, so a \<^verbatim>\<open>null\<close> rule reaches
  \<^verbatim>\<open>generatedField.options\<close> and throws. The \<open>i\<close>-th rule reads the clock as
  \<open>clock_date W i\<close>.
\<close>

fun generated_loop :: "lib \<Rightarrow> world \<Rightarrow> staticman \<Rightarrow> obj \<Rightarrow> nat \<Rightarrow> string list \<Rightarrow> obj \<Rightarrow> exn + obj" where
  "generated_loop L W this gen i [] data = Inr data"
| "generated_loop L W this gen i (field # rest) data =
     (case obj_get gen field of
        JNull \<Rightarrow> Inl TypeError
      | JObj g \<Rightarrow>
          (let options = (if truthy (obj_get g ''options'') then obj_get g ''options'' else JObj [])
           in if obj_get g ''type'' = JStr ''date'' then
                generated_loop L W this gen (Suc i) rest
                  (obj_put data field (createDate L (clock_date W i) options))
              else if obj_get g ''type'' = JStr ''slugify'' then
                (case obj_get (this_options this) ''field'' of
                   JStr key \<Rightarrow>
                     (case slugify L (obj_index data key) of
                        Inl e \<Rightarrow> Inl e
                      | Inr slug \<Rightarrow>
                          generated_loop L W this gen (Suc i) rest
                            (obj_put data field (JStr (toLowerCase slug))))
                 | _ \<Rightarrow> generated_loop L W this gen (Suc i) rest data)
              else generated_loop L W this gen (Suc i) rest data)
      | generatedField \<Rightarrow>
          generated_loop L W this gen (Suc i) rest (obj_put data field generatedField))"

definition applyGeneratedFields :: "lib \<Rightarrow> world \<Rightarrow> staticman \<Rightarrow> site_config \<Rightarrow> obj \<Rightarrow> exn + obj" where
  "applyGeneratedFields L W this cfg data =
     (case generatedFields cfg of
        None \<Rightarrow> Inr data
      | Some gen \<Rightarrow> generated_loop L W this gen 0 (obj_keys gen) data)"

text \<open>The loop of \<^verbatim>\<open>_applyTransforms\<close> over the keys of \<^verbatim>\<open>transforms\<close>.\<close>

fun transform_loop :: "lib \<Rightarrow> obj \<Rightarrow> string list \<Rightarrow> obj \<Rightarrow> exn + obj" where
  "transform_loop L t [] flds = Inr flds"
| "transform_loop L t (field # rest) flds =
     (if \<not> truthy (obj_index flds field) then transform_loop L t rest flds
      else if obj_get t field = JStr ''md5'' then
        (case md5 L (obj_index flds field) of
           Inl e \<Rightarrow> Inl e
         | Inr h \<Rightarrow> transform_loop L t rest (obj_put flds field (JStr h)))
      else transform_loop L t rest flds)"

definition applyTransforms :: "lib \<Rightarrow> site_config \<Rightarrow> obj \<Rightarrow> exn + obj" where
  "applyTransforms L cfg flds =
     (case transforms cfg of
        None \<Rightarrow> Inr flds
      | Some t \<Rightarrow> transform_loop L t (obj_keys t) flds)"

section \<open>Spam check (\<^verbatim>\<open>_checkForSpam\<close>)\<close>

definition spam_payload :: "staticman \<Rightarrow> site_config \<Rightarrow> obj \<Rightarrow> obj" where
  "spam_payload this cfg flds =
     [(''user_ip'', this_ip this),
      (''user_agent'', this_userAgent this),
      (''comment_type'', JStr (akismet_type cfg)),
      (''comment_author'', obj_index flds (akismet_author cfg)),
      (''comment_author_email'', obj_index flds (akismet_authorEmail cfg)),
      (''comment_author_url'', obj_index flds (akismet_authorUrl cfg)),
      (''comment_content'', obj_index flds (akismet_content cfg))]"

text \<open>The promise of \<^verbatim>\<open>_checkForSpam\<close> and the calls it issued. In the callback the
  error is looked at first, then the verdict.\<close>

definition checkForSpam :: "world \<Rightarrow> staticman \<Rightarrow> site_config \<Rightarrow> obj \<Rightarrow> (error + obj) \<times> effect list" where
  "checkForSpam W this cfg flds =
     (if \<not> akismet_enabled cfg then (Inr flds, [])
      else
        (let payload = spam_payload this cfg flds;
             (err, isSpam) = akismet_checkSpam W payload
         in (if truthy err then Inl (SpamCheckFailed err)
             else if truthy isSpam then Inl IS_SPAM
             else Inr flds,
             [CheckSpam payload])))"

section \<open>Loading the configuration (\<^verbatim>\<open>getSiteConfig\<close>)\<close>

definition getSiteConfig :: "lib \<Rightarrow> world \<Rightarrow> staticman \<Rightarrow> bool \<Rightarrow> (error + staticman) \<times> effect list" where
  "getSiteConfig L W this force =
     (if this_siteConfig this \<noteq> None \<and> \<not> force then (Inr this, [])
      else
        (case this_configPath this of
           None \<Rightarrow> (Inl NO_CONFIG_PATH, [])
         | Some (file, p) \<Rightarrow>
             (case github_readFile W file of
                Inl e \<Rightarrow> (Inl (ReadFailed e), [ReadFile file])
              | Inr data \<Rightarrow>
                  (let config = objectPath_get data p
                   in (case validateConfig L this config of
                         Inl e \<Rightarrow> Inl (ConfigValidationFailed e)
                       | Inr (Some validationErrors, this') \<Rightarrow> Inl (ConfigError validationErrors)
                       | Inr (None, this') \<Rightarrow>
                           (if \<not> strict_eq (js_prop config ''branch'') (obj_get (this_parameters this) ''branch'')
                            then Inl BRANCH_MISMATCH
                            else Inr this'),
                       [ReadFile file])))))"

section \<open>The pipeline (\<^verbatim>\<open>processEntry\<close>)\<close>

text \<open>The second step of the chain: validation, generated fields, transforms. The
  object it returns is \<^verbatim>\<open>this.fields\<close>, mutated in place.\<close>

definition processFields :: "lib \<Rightarrow> world \<Rightarrow> staticman \<Rightarrow> site_config \<Rightarrow> obj \<Rightarrow> error + obj" where
  "processFields L W this cfg flds =
     (case validateFields cfg flds of
        (Some fieldErrors, flds1) \<Rightarrow> Inl (FieldErrors fieldErrors)
      | (None, flds1) \<Rightarrow>
          (case applyGeneratedFields L W this cfg flds1 of
             Inl e \<Rightarrow> Inl (Thrown e)
           | Inr flds2 \<Rightarrow>
               (case applyTransforms L cfg flds2 of
                  Inl e \<Rightarrow> Inl (Thrown e)
                | Inr flds3 \<Rightarrow> Inr flds3)))"

text \<open>\<^verbatim>\<open>_generatePRBody(fields)\<close>.\<close>

definition configPath_value :: "staticman \<Rightarrow> jsval" where
  "configPath_value this =
     (case this_configPath this of
        None \<Rightarrow> JUndefined
      | Some (file, p) \<Rightarrow> JObj [(''file'', JStr file), (''path'', JStr p)])"

definition generatePRBody :: "lib \<Rightarrow> staticman \<Rightarrow> site_config \<Rightarrow> obj \<Rightarrow> string" where
  "generatePRBody L this cfg flds =
     (let table = (''Field'', JStr ''Content'') # flds;
          message = pullRequestBody cfg @ markdownTable L table
      in if notifications_enabled cfg then
           (let notificationsPayload =
                  JObj [(''configPath'', configPath_value this), (''fields'', JObj flds),
                        (''options'', JObj (this_options this)),
                        (''parameters'', JObj (this_parameters this))]
            in message @ newline @ newline @ ''<!--staticman_notification:''
                 @ JSON_stringify L notificationsPayload @ ''-->'')
         else message)"

text \<open>The value the promise resolves with.\<close>

record result =
  res_fields :: obj
  res_redirect :: jsval

text \<open>
  The steps up to \<^verbatim>\<open>_applyInternalFields\<close>: the request as it stands then (its
  \<^verbatim>\<open>fields\<close> validated, generated and transformed), the site configuration, and the
  object handed to \<^verbatim>\<open>_createFile\<close>.
\<close>

definition prepareEntry :: "lib \<Rightarrow> world \<Rightarrow> staticman \<Rightarrow> (error + staticman \<times> site_config \<times> obj) \<times> effect list" where
  "prepareEntry L W this =
     (case getSiteConfig L W this False of
        (Inl e, tr1) \<Rightarrow> (Inl e, tr1)
      | (Inr this1, tr1) \<Rightarrow>
          (case this_siteConfig this1 of
             None \<Rightarrow> (Inl (Thrown TypeError), tr1)
           | Some cfg \<Rightarrow>
               (case checkForSpam W this1 cfg (this_fields this1) of
                  (Inl e, tr2) \<Rightarrow> (Inl e, tr1 @ tr2)
                | (Inr flds, tr2) \<Rightarrow>
                    (case processFields L W this1 cfg flds of
                       Inl e \<Rightarrow> (Inl e, tr1 @ tr2)
                     | Inr transformedFields \<Rightarrow>
                         (let this2 = this1\<lparr>this_fields := transformedFields\<rparr>
                          in (Inr (this2, cfg, applyInternalFields this2 transformedFields),
                              tr1 @ tr2))))))"

text \<open>The last step of the chain: the target path, the commit message, the
  subscription, and the write, direct or through a review request.\<close>

definition dispatch :: "lib \<Rightarrow> world \<Rightarrow> staticman \<Rightarrow> site_config \<Rightarrow> string \<Rightarrow> (error + result) \<times> effect list" where
  "dispatch L W this cfg data =
     (let flds = this_fields this;
          options = this_options this;
          filePath = getNewFilePath this cfg (clock_filename W) (clock_path W) flds;
          subscriptions = notifications_enabled cfg;
          message = resolvePlaceholders this (clock_commit W) (commitMessage cfg)
                      (placeholder_context this flds);
          parent = obj_get options ''parent'';
          subscribe = obj_get options ''subscribe'';
          tr_set = (if subscriptions \<and> truthy parent \<and> truthy subscribe
                       \<and> truthy (obj_index flds (ToString subscribe))
                    then [SubscriptionSet parent (obj_index flds (ToString subscribe))] else []);
          res = \<lparr> res_fields = flds,
                  res_redirect = (if truthy (obj_get options ''redirect'')
                                  then obj_get options ''redirect'' else JBool False) \<rparr>
      in if moderation cfg then
           (let newBranch = ''staticman_'' @ this_uid this;
                body = generatePRBody L this cfg flds
            in (case github_writeFileAndSendPR W filePath data newBranch message body of
                  Inl e \<Rightarrow> Inl (WriteFailed e)
                | Inr ack \<Rightarrow> Inr res,
                tr_set @ [WriteFileAndSendPR filePath data newBranch message body]))
         else
           (let tr_send = (if subscriptions \<and> truthy parent
                           then [SubscriptionSend parent flds options] else []);
                branch = obj_get (this_parameters this) ''branch''
            in (case github_writeFile W filePath data branch message of
                  Inl e \<Rightarrow> Inl (WriteFailed e)
                | Inr ack \<Rightarrow> Inr res,
                tr_set @ tr_send @ [WriteFile filePath data branch message])))"

definition processEntry :: "lib \<Rightarrow> world \<Rightarrow> staticman \<Rightarrow> (error + result) \<times> effect list" where
  "processEntry L W this =
     (case prepareEntry L W this of
        (Inl e, tr) \<Rightarrow> (Inl e, tr)
      | (Inr (this2, cfg, extendedFields), tr) \<Rightarrow>
          (case createFile L cfg extendedFields of
             (Inl e, extendedFields') \<Rightarrow> (Inl e, tr)
           | (Inr data, extendedFields') \<Rightarrow>
               (case dispatch L W this2 cfg data of
                  (r, tr3) \<Rightarrow> (r, tr @ tr3))))"

text \<open>The calls that write to the repository: a file write, and a file write on a new
  branch with a review request.\<close>

fun is_write :: "effect \<Rightarrow> bool" where
  "is_write (WriteFile p d b m) = True"
| "is_write (WriteFileAndSendPR p d nb m body) = True"
| "is_write e = False"

text \<open>A configuration and a submission used to evaluate the functions on concrete
  inputs.\<close>

definition example_config :: site_config where
  "example_config = \<lparr> allowedFields = [''name'', ''message''], requiredFields = [''name''],
     format = ''json'', path = ''posts/{options.parent}'', filename = ''{@id}'',
     commitMessage = ''New comment'', moderation = False, generatedFields = None,
     transforms = None, akismet_enabled = False, akismet_type = ''comment'',
     akismet_author = ''name'', akismet_authorEmail = ''email'', akismet_authorUrl = ''url'',
     akismet_content = ''message'', notifications_enabled = False, pullRequestBody = [] \<rparr>"

definition example_fields :: obj where
  "example_fields = [(''name'', JStr ''  ''), (''x'', JStr '' ''), (''y'', JStr []),
     (''message'', JStr '' hi '')]"

text \<open>
  The origin check as the specification words it: it passes when the configuration
  declares no origins (or an empty list), or when \<^verbatim>\<open>options.origin\<close> is present and its
  hostname equals an entry of the list.
\<close>

definition origin_check_passes :: "lib \<Rightarrow> staticman \<Rightarrow> jsval \<Rightarrow> bool" where
  "origin_check_passes L this config =
     (case js_prop config ''allowedOrigins'' of
        JArr origins \<Rightarrow>
          origins = [] \<or>
          (case obj_get (this_options this) ''origin'' of
             JStr u \<Rightarrow> u \<noteq> [] \<and> hostname_value (url_hostname L u) \<in> set origins
           | _ \<Rightarrow> False)
      | ao \<Rightarrow> \<not> (truthy ao \<and> truthy (js_prop ao ''length'')))"

text \<open>Stand-ins for the library functions, used to evaluate the pipeline on concrete
  inputs: the YAML of a flat object of strings, and plain renderings elsewhere.\<close>

fun simple_yaml :: "obj \<Rightarrow> string" where
  "simple_yaml [] = []"
| "simple_yaml ((k, v) # rest) = k @ '': '' @ ToString v @ newline @ simple_yaml rest"

definition example_lib :: lib where
  "example_lib = \<lparr> SiteConfig = (\<lambda>config. example_config),
     url_hostname = simple_hostname,
     yaml_safeDump = (\<lambda>ob. Inr (simple_yaml ob)),
     JSON_stringify = (\<lambda>v. case v of JObj ob \<Rightarrow> ''{'' @ simple_yaml ob @ ''}'' | _ \<Rightarrow> ToString v),
     md5 = (\<lambda>v. Inr (''md5:'' @ ToString v)),
     slugify = (\<lambda>v. Inr (ToString v)),
     toISOString = show_int,
     markdownTable = simple_yaml \<rparr>"

definition example_raw_config :: jsval where
  "example_raw_config = JObj [(''allowedFields'', JArr [JStr ''name'', JStr ''message'']),
     (''branch'', JStr ''master''), (''format'', JStr ''json''), (''path'', JStr ''posts/{options.parent}''),
     (''allowedOrigins'', JArr [JStr ''example.com''])]"

definition example_request :: staticman where
  "example_request = \<lparr> this_parameters = [(''branch'', JStr ''master'')],
     this_fields = [(''name'', JStr ''Ann''), (''message'', JStr '' hi '')],
     this_options = [(''parent'', JStr ''123''), (''origin'', JStr ''http://example.com/page'')],
     this_uid = ''abc'', this_siteConfig = None,
     this_configPath = Some (''staticman.yml'', ''comments''),
     this_ip = JStr ''127.0.0.1'', this_userAgent = JStr ''agent'' \<rparr>"

text \<open>The fields of \<^verbatim>\<open>transforms\<close> declared as \<^verbatim>\<open>frontmatterContent\<close>, in order.\<close>

definition declared_content_fields :: "site_config \<Rightarrow> string list" where
  "declared_content_fields cfg =
     (case transforms cfg of
        None \<Rightarrow> []
      | Some t \<Rightarrow> filter (\<lambda>field. obj_get t field = JStr ''frontmatterContent'') (obj_keys t))"

definition frontmatter_config :: site_config where
  "frontmatter_config = example_config\<lparr>format := ''frontmatter'',
     transforms := Some [(''body'', JStr ''frontmatterContent'')]\<rparr>"

definition example_world :: world where
  "example_world = \<lparr> github_readFile = (\<lambda>file. Inr (JObj [(''comments'', example_raw_config)])),
     akismet_checkSpam = (\<lambda>payload. (JNull, JBool True)),
     github_writeFile = (\<lambda>p d b m. Inr JNull),
     github_writeFileAndSendPR = (\<lambda>p d nb m body. Inr JNull),
     clock_date = (\<lambda>i. 1700000000000),
     clock_filename = (\<lambda>i. 1700000000001),
     clock_path = (\<lambda>i. 1700000000002),
     clock_commit = (\<lambda>i. 1700000000003) \<rparr>"

definition spam_lib :: lib where
  "spam_lib = example_lib\<lparr>SiteConfig := (\<lambda>config. example_config\<lparr>akismet_enabled := True\<rparr>)\<rparr>"

definition failing_classifier_world :: world where
  "failing_classifier_world =
     example_world\<lparr>akismet_checkSpam := (\<lambda>payload. (JStr ''ETIMEDOUT'', JUndefined))\<rparr>"

text \<open>The names \<^verbatim>\<open>generatedFields\<close> declares.\<close>

definition generated_names :: "site_config \<Rightarrow> string set" where
  "generated_names cfg = (case generatedFields cfg of None \<Rightarrow> {} | Some gen \<Rightarrow> set (obj_keys gen))"

text \<open>The names \<^verbatim>\<open>transforms\<close> declares that are members of
  \<^verbatim>\<open>Object.prototype\<close>: a transform finds a value under such a name in every
  submission.\<close>

definition inherited_transform_names :: "site_config \<Rightarrow> string set" where
  "inherited_transform_names cfg =
     (case transforms cfg of
        None \<Rightarrow> {}
      | Some t \<Rightarrow> {k \<in> set (obj_keys t). prototype_member k \<noteq> None})"

text \<open>The site configuration the pipeline loads for a request.\<close>

definition loaded_config :: "lib \<Rightarrow> world \<Rightarrow> staticman \<Rightarrow> site_config option" where
  "loaded_config L W this =
     (case fst (getSiteConfig L W this False) of
        Inl e \<Rightarrow> None
      | Inr this1 \<Rightarrow> this_siteConfig this1)"

text \<open>The object the pipeline hands to \<^verbatim>\<open>_createFile\<close>, and the request's
  \<^verbatim>\<open>fields\<close> at that point (validated, generated, transformed), when the entry reaches
  serialization.\<close>

definition serializer_input :: "lib \<Rightarrow> world \<Rightarrow> staticman \<Rightarrow> obj option" where
  "serializer_input L W this =
     (case fst (prepareEntry L W this) of
        Inl e \<Rightarrow> None
      | Inr (this2, cfg, extendedFields) \<Rightarrow> Some extendedFields)"

definition processed_fields :: "lib \<Rightarrow> world \<Rightarrow> staticman \<Rightarrow> obj option" where
  "processed_fields L W this =
     (case fst (prepareEntry L W this) of
        Inl e \<Rightarrow> None
      | Inr (this2, cfg, extendedFields) \<Rightarrow> Some (this_fields this2))"

text \<open>A submission that carries a field named \<^verbatim>\<open>_id\<close> with an empty value, and
  a front matter configuration with its submission.\<close>

definition underscore_request :: staticman where
  "underscore_request = example_request\<lparr>this_fields := [(''name'', JStr ''Ann''), (''_id'', JStr [])]\<rparr>"

definition body_lib :: lib where
  "body_lib = example_lib\<lparr>SiteConfig := (\<lambda>config. frontmatter_config\<lparr>allowedFields := [''name'', ''body'']\<rparr>)\<rparr>"

definition body_request :: staticman where
  "body_request = example_request\<lparr>this_fields := [(''name'', JStr ''Ann''), (''body'', JStr '' Hello '')]\<rparr>"

text \<open>The target path as the specification words it: the resolved path without one
  trailing separator, a separator, and the resolved file name or, when no file name
  template is configured, the unique entry identifier.\<close>

definition strip_trailing_slash :: "string \<Rightarrow> string" where
  "strip_trailing_slash p = (if p \<noteq> [] \<and> last p = CHR ''/'' then butlast p else p)"

definition path_stem :: "staticman \<Rightarrow> site_config \<Rightarrow> (nat \<Rightarrow> int) \<Rightarrow> (nat \<Rightarrow> int) \<Rightarrow> obj \<Rightarrow> string" where
  "path_stem this cfg clock_f clock_p data =
     strip_trailing_slash (resolvePlaceholders this clock_p (path cfg) (placeholder_context this data))
     @ ''/''
     @ (if filename cfg = [] then this_uid this
        else resolvePlaceholders this clock_f (filename cfg) (placeholder_context this data))"

section \<open>Placeholder resolution as the specification words it\<close>

text \<open>
  A template read once from left to right: a placeholder where the pattern of
  \<^verbatim>\<open>_resolvePlaceholders\<close> matches, a literal character elsewhere. \<open>Lit\<close> holds a
  piece of text, \<open>Tok\<close> the name between the braces.
\<close>

datatype item = Lit string | Tok string

function parse_template :: "string \<Rightarrow> item list" where
  "parse_template [] = []"
| "parse_template (c # cs) =
     (if c = CHR ''{'' then
        (case find_close cs of
           Some body \<Rightarrow> Tok body # parse_template (drop (Suc (length body)) cs)
         | None \<Rightarrow> Lit [c] # parse_template cs)
      else Lit [c] # parse_template cs)"
  by pat_completeness auto

termination
  by (relation "measure length") auto

definition token_text :: "string \<Rightarrow> string" where
  "token_text body = CHR ''{'' # body @ ''}''"

fun item_text :: "item \<Rightarrow> string" where
  "item_text (Lit t) = t"
| "item_text (Tok body) = token_text body"

definition render :: "item list \<Rightarrow> string" where
  "render its = concat (map item_text its)"

fun item_value :: "(string \<Rightarrow> string) \<Rightarrow> item \<Rightarrow> string" where
  "item_value f (Lit t) = t"
| "item_value f (Tok body) = f body"

text \<open>Every placeholder replaced by its value, in one pass over the template: a value is
  never looked at again.\<close>

definition spec_substitute :: "(string \<Rightarrow> string) \<Rightarrow> string \<Rightarrow> string" where
  "spec_substitute f subject = concat (map (item_value f) (parse_template subject))"

text \<open>The text that replaces the placeholder named \<open>property\<close> when the clock reads
  \<open>now\<close>.\<close>

definition placeholder_value :: "staticman \<Rightarrow> jsval \<Rightarrow> int \<Rightarrow> string \<Rightarrow> string" where
  "placeholder_value this baseObject now property = ToString (newText this baseObject now property)"

text \<open>The names of the placeholders of a template, in the order of the template, and
  the position at which a name comes first.\<close>

fun tokens_of :: "item list \<Rightarrow> string list" where
  "tokens_of [] = []"
| "tokens_of (Lit t # its) = tokens_of its"
| "tokens_of (Tok body # its) = body # tokens_of its"

definition placeholders :: "string \<Rightarrow> string list" where
  "placeholders subject = tokens_of (parse_template subject)"

fun first_index :: "string \<Rightarrow> string list \<Rightarrow> nat" where
  "first_index x [] = 0"
| "first_index x (y # ys) = (if x = y then 0 else Suc (first_index x ys))"

text \<open>The value of a placeholder of a template: the placeholders are processed in the
  order of the template, the \<open>i\<close>-th reading the clock as \<open>clock i\<close>, and a name is
  given its value when its first placeholder is processed.\<close>

definition token_value :: "staticman \<Rightarrow> jsval \<Rightarrow> (nat \<Rightarrow> int) \<Rightarrow> string \<Rightarrow> string \<Rightarrow> string" where
  "token_value this baseObject clock subject property =
     placeholder_value this baseObject (clock (first_index property (placeholders subject))) property"

text \<open>No placeholder name contains an opening brace.\<close>

definition plain_names :: "string \<Rightarrow> bool" where
  "plain_names subject = list_all (\<lambda>body. CHR ''{'' \<notin> set body) (placeholders subject)"

text \<open>A text holds one of the patterns \<^verbatim>\<open>$$\<close>, \<^verbatim>\<open>$&\<close>, \<^verbatim>\<open>$`\<close>, \<^verbatim>\<open>$'\<close>, which
  \<^verbatim>\<open>String.prototype.replace\<close> expands in a replacement text.\<close>

fun has_dollar_pattern :: "string \<Rightarrow> bool" where
  "has_dollar_pattern [] = False"
| "has_dollar_pattern [c] = False"
| "has_dollar_pattern (c # d # r) =
     ((c = CHR ''$'' \<and> (d = CHR ''$'' \<or> d = CHR ''&'' \<or> d = CHR 0x60 \<or> d = CHR 0x27))
      \<or> has_dollar_pattern (d # r))"

text \<open>No value of a placeholder of the template contains an opening brace or one of
  the dollar patterns.\<close>

definition plain_values :: "(string \<Rightarrow> string) \<Rightarrow> string \<Rightarrow> bool" where
  "plain_values f subject =
     list_all (\<lambda>body. CHR ''{'' \<notin> set (f body) \<and> \<not> has_dollar_pattern (f body)) (placeholders subject)"

text \<open>Notions used in the proofs: a text without line terminator, a list of pieces in
  which no opening brace outside a placeholder can begin one, and the template after one
  or several placeholders are resolved.\<close>

fun lt_free :: "string \<Rightarrow> bool" where
  "lt_free [] = True"
| "lt_free (c # cs) = (\<not> line_terminator_at (c # cs) \<and> lt_free cs)"

fun safe :: "item list \<Rightarrow> bool" where
  "safe [] = True"
| "safe (Lit t # its) =
     ((if t = ''{'' then find_close (render its) = None else CHR ''{'' \<notin> set t) \<and> safe its)"
| "safe (Tok body # its) =
     (CHR ''{'' \<notin> set body \<and> CHR ''}'' \<notin> set body \<and> lt_free body \<and> safe its)"

fun subst_item :: "string \<Rightarrow> string \<Rightarrow> item \<Rightarrow> item" where
  "subst_item p v (Lit t) = Lit t"
| "subst_item p v (Tok body) = (if body = p then Lit v else Tok body)"

fun resolve_item :: "(string \<Rightarrow> string) \<Rightarrow> string list \<Rightarrow> item \<Rightarrow> item" where
  "resolve_item f ps (Lit t) = Lit t"
| "resolve_item f ps (Tok body) = (if body \<in> set ps then Lit (f body) else Tok body)"

text \<open>A clock that advances by one millisecond at every reading; a submission with a
  field \<^verbatim>\<open>a\<close> that holds the text of a placeholder, a field \<^verbatim>\<open>c\<close> that holds
  an opening brace, fields that hold the dollar patterns, and a field \<^verbatim>\<open>n\<close> that
  holds the number 0; a template in which two opening braces open no placeholder, the
  first followed by U+2028 and the second by a line feed.\<close>

definition ticking_clock :: "int \<Rightarrow> nat \<Rightarrow> int" where
  "ticking_clock t i = t + int i"

definition rescan_request :: staticman where
  "rescan_request = example_request\<lparr>this_fields :=
     [(''a'', JStr ''{fields.b}''), (''b'', JStr ''X''), (''c'', JStr ''{''),
      (''d'', JStr ''$&''), (''e'', JStr ''$$''), (''f'', JStr [CHR ''$'', CHR 0x60]),
      (''g'', JStr [CHR ''$'', CHR 0x27]), (''n'', JNum 0)]\<rparr>"

definition example_template :: string where
  "example_template = ''{@id} {a'' @ [CHR 0xE2, CHR 0x80, CHR 0xA8] @ ''b} {@timestamp}{fields.none} {x''
     @ [CHR 0x0A] @ ''{@id}/{options.parent}-{@timestamp}''"

definition example_context :: jsval where
  "example_context = placeholder_context example_request (this_fields example_request)"

definition rescan_context :: jsval where
  "rescan_context = placeholder_context rescan_request (this_fields rescan_request)"

text \<open>A string that consists of white space only: white-space characters, one after
  the other.\<close>

definition ws_only :: "string \<Rightarrow> bool" where
  "ws_only s = (\<exists>parts. set parts \<subseteq> set white_space \<and> concat parts = s)"

text \<open>A submission with values of white space only, a no-break space (U+00A0) for the
  required field \<^verbatim>\<open>name\<close>, an em space (U+2003) and a space for the field
  \<^verbatim>\<open>x\<close>, which is not allowed, and with a message between a no-break space and a
  space and an ideographic space (U+3000).\<close>

definition nbsp_fields :: obj where
  "nbsp_fields = [(''name'', JStr [CHR 0xC2, CHR 0xA0]),
     (''x'', JStr [CHR 0xE2, CHR 0x80, CHR 0x83, CHR 0x20]),
     (''message'', JStr ([CHR 0xC2, CHR 0xA0] @ ''a b'' @ [CHR 0x20, CHR 0xE3, CHR 0x80, CHR 0x80]))]"

text \<open>A configuration that requires a field named like a member of
  \<^verbatim>\<open>Object.prototype\<close>.\<close>

definition constructor_config :: site_config where
  "constructor_config = example_config\<lparr>requiredFields := [''constructor'']\<rparr>"

section \<open>Properties of objects\<close>

lemma obj_get_set_other: "k' \<noteq> k \<Longrightarrow> obj_get (obj_set fs k v) k' = obj_get fs k'"
  by (simp add: obj_get_def obj_set_def update_conv')

lemma obj_get_set_same: "obj_get (obj_set fs k v) k = v"
  by (simp add: obj_get_def obj_set_def update_conv')

lemma obj_get_in: "distinct (map fst fs) \<Longrightarrow> (k, v) \<in> set fs \<Longrightarrow> obj_get fs k = v"
  by (simp add: obj_get_def)

section \<open>Properties of field validation\<close>

lemma white_space_prefix_free:
  "list_all (\<lambda>w. list_all (\<lambda>w'. take (length w') w = w' \<longrightarrow> w = w') white_space) white_space"
  by code_simp

lemma white_space_nonempty: "list_all (\<lambda>w. w \<noteq> []) white_space"
  by code_simp

lemma prefix_free:
  assumes "w \<in> set white_space" and "w' \<in> set white_space" and "take (length w') w = w'"
  shows "w = w'"
  using white_space_prefix_free assms unfolding list_all_iff by blast

lemma strip_start_ws:
  assumes "w \<in> set white_space"
  shows "strip_start white_space (w @ s) = strip_start white_space s"
proof -
  have wne: "w \<noteq> []" using white_space_nonempty assms unfolding list_all_iff by blast
  let ?P = "\<lambda>w'. w' \<noteq> [] \<and> take (length w') (w @ s) = w'"
  have "?P w" using wne by simp
  with assms obtain w' where f: "find ?P white_space = Some w'"
    by (cases "find ?P white_space") (auto simp: find_None_iff)
  then have w': "w' \<in> set white_space" "w' \<noteq> []" "take (length w') (w @ s) = w'"
    by (auto simp: find_Some_iff)
  have "w = w'"
  proof (cases "length w' \<le> length w")
    case True
    with w'(3) have "take (length w') w = w'" by simp
    from prefix_free[OF assms w'(1) this] show ?thesis .
  next
    case False
    then have "length w < length w'" by simp
    with w'(3) have "take (length w) w' = w"
      by (metis append_eq_conv_conj less_imp_le_nat take_all take_append take_take min.absorb2
          append_take_drop_id length_take min.absorb1 nat_less_le)
    from prefix_free[OF w'(1) assms this] show ?thesis by simp
  qed
  with f show ?thesis by (subst strip_start.simps) simp
qed

lemma strip_start_Nil: "strip_start ws [] = []"
  by (subst strip_start.simps) (auto simp: find_None_iff split: option.splits dest: find_Some_iff[THEN iffD1])

lemma strip_start_ws_only: "ws_only s \<Longrightarrow> strip_start white_space s = []"
proof -
  assume "ws_only s"
  then obtain parts where p: "set parts \<subseteq> set white_space" and c: "concat parts = s"
    by (auto simp: ws_only_def)
  from p have "strip_start white_space (concat parts) = []"
  proof (induction parts)
    case Nil
    then show ?case by (simp add: strip_start_Nil)
  next
    case (Cons w parts)
    then show ?case by (simp add: strip_start_ws)
  qed
  with c show ?thesis by simp
qed

lemma trim_ws_only: "ws_only s \<Longrightarrow> trim s = []"
  by (simp add: trim_def strip_start_ws_only strip_start_Nil)

lemma trim_Nil: "trim [] = []"
  by (simp add: trim_def strip_start_Nil)

text \<open>What \<open>trim\<close> returns: the string without a run of white space at its front and
  one at its end, and with no white space left at either end.\<close>

lemma strip_start_decomp:
  "\<exists>parts. set parts \<subseteq> {w \<in> set ws. w \<noteq> []} \<and> s = concat parts @ strip_start ws s
      \<and> find (\<lambda>w. w \<noteq> [] \<and> take (length w) (strip_start ws s) = w) ws = None"
proof (induction ws s rule: strip_start.induct)
  case (1 ws s)
  show ?case
  proof (cases "find (\<lambda>w. w \<noteq> [] \<and> take (length w) s = w) ws")
    case None
    then have e: "strip_start ws s = s" by (subst strip_start.simps) simp
    show ?thesis unfolding e using None by (intro exI[of _ "[]"]) simp
  next
    case (Some w)
    then have e: "strip_start ws s = strip_start ws (drop (length w) s)"
      by (subst strip_start.simps) simp
    from Some have w: "w \<in> set ws" "w \<noteq> []" "take (length w) s = w"
      by (auto simp: find_Some_iff)
    from "1.IH"[OF Some] obtain parts where p: "set parts \<subseteq> {w \<in> set ws. w \<noteq> []}"
      and d: "drop (length w) s = concat parts @ strip_start ws (drop (length w) s)"
      and f: "find (\<lambda>w'. w' \<noteq> [] \<and> take (length w') (strip_start ws (drop (length w) s)) = w') ws = None"
      by blast
    have "s = take (length w) s @ drop (length w) s" by simp
    with w(3) d have "s = concat (w # parts) @ strip_start ws (drop (length w) s)" by simp
    with p w f show ?thesis unfolding e by (intro exI[of _ "w # parts"]) simp
  qed
qed

lemma rev_concat_parts:
  assumes "set parts \<subseteq> set (map rev ws)"
  shows "\<exists>parts'. set parts' \<subseteq> set ws \<and> concat parts' = rev (concat parts)"
proof -
  have "set (map rev (rev parts)) \<subseteq> set ws" using assms by auto
  moreover have "concat (map rev (rev parts)) = rev (concat parts)" by (simp add: rev_concat)
  ultimately show ?thesis by blast
qed

lemma trim_spec:
  "\<exists>a b. s = a @ trim s @ b \<and> ws_only a \<and> ws_only b
     \<and> (\<forall>w \<in> set white_space. \<forall>r. trim s \<noteq> w @ r \<and> trim s \<noteq> r @ w)"
proof -
  let ?s1 = "strip_start white_space s"
  from strip_start_decomp[of white_space s] obtain pa where
    pa: "set pa \<subseteq> set white_space" and s: "s = concat pa @ ?s1"
    and f1: "find (\<lambda>w. w \<noteq> [] \<and> take (length w) ?s1 = w) white_space = None"
    by blast
  from strip_start_decomp[of "map rev white_space" "rev ?s1"] obtain pb where
    pb: "set pb \<subseteq> set (map rev white_space)"
    and r: "rev ?s1 = concat pb @ strip_start (map rev white_space) (rev ?s1)"
    and f2: "find (\<lambda>w. w \<noteq> [] \<and> take (length w) (strip_start (map rev white_space) (rev ?s1)) = w)
               (map rev white_space) = None"
    by blast
  from rev_concat_parts[OF pb] obtain pb' where
    pb': "set pb' \<subseteq> set white_space" and cb: "concat pb' = rev (concat pb)" by blast
  have t: "rev (trim s) = strip_start (map rev white_space) (rev ?s1)" by (simp add: trim_def)
  from r have "rev (rev ?s1) = rev (concat pb @ rev (trim s))" unfolding t by simp
  then have s1: "?s1 = trim s @ concat pb'" using cb by simp
  have dec: "s = concat pa @ trim s @ concat pb'" using s s1 by simp
  have wa: "ws_only (concat pa)" using pa by (auto simp: ws_only_def)
  have wb: "ws_only (concat pb')" using pb' by (auto simp: ws_only_def)
  have ne: "\<And>w. w \<in> set white_space \<Longrightarrow> w \<noteq> []"
    using white_space_nonempty unfolding list_all_iff by blast
  have edge: "\<forall>w \<in> set white_space. \<forall>r. trim s \<noteq> w @ r \<and> trim s \<noteq> r @ w"
  proof (intro ballI allI conjI)
    fix w r assume w: "w \<in> set white_space"
    show "trim s \<noteq> w @ r"
    proof
      assume "trim s = w @ r"
      with s1 have "take (length w) ?s1 = w" by simp
      with f1 w ne[OF w] show False by (auto simp: find_None_iff)
    qed
    show "trim s \<noteq> r @ w"
    proof
      assume "trim s = r @ w"
      then have "rev (trim s) = rev w @ rev r" by simp
      then have "take (length (rev w)) (strip_start (map rev white_space) (rev ?s1)) = rev w"
        unfolding t[symmetric] by simp
      with f2 w ne[OF w] show False by (auto simp: find_None_iff)
    qed
  qed
  from dec wa wb edge show ?thesis by blast
qed

lemma obj_index_own: "k \<in> set (obj_keys ob) \<Longrightarrow> obj_index ob k = obj_get ob k"
proof -
  assume "k \<in> set (obj_keys ob)"
  then obtain v where "map_of ob k = Some v"
    by (cases "map_of ob k") (auto simp: obj_keys_def map_of_eq_None_iff)
  then show ?thesis by (simp add: obj_index_def obj_get_def)
qed

lemma obj_index_absent:
  "k \<notin> set (obj_keys ob) \<Longrightarrow>
   obj_index ob k = (case prototype_member k of Some v \<Rightarrow> v | None \<Rightarrow> JUndefined)"
  by (simp add: obj_index_def obj_keys_def map_of_eq_None_iff[THEN iffD2])

lemma obj_index_plain: "prototype_member k = None \<Longrightarrow> obj_index ob k = obj_get ob k"
  by (simp add: obj_index_def obj_get_def split: option.splits)

lemma obj_set_trim_map:
  "distinct (map fst fs) \<Longrightarrow> obj_get fs k = JStr s \<Longrightarrow>
   obj_set fs k (JStr (trim s)) = map (\<lambda>(k', v). if k' = k then (k', trim_val v) else (k', v)) fs"
  unfolding obj_get_def obj_set_def
proof (induction fs)
  case Nil
  then show ?case by simp
next
  case (Cons a fs)
  obtain k0 v0 where a: "a = (k0, v0)" by (cases a)
  show ?case
  proof (cases "k0 = k")
    case True
    with Cons.prems a have v0: "v0 = JStr s" by simp
    from Cons.prems a True have "k \<notin> fst ` set fs" by simp
    then have "map (\<lambda>(k', v). if k' = k then (k', trim_val v) else (k', v)) fs = fs"
      by (intro map_idI) (auto simp: image_iff)
    with a True v0 show ?thesis by (simp add: trim_val_def)
  next
    case False
    with Cons a show ?thesis by simp
  qed
qed

lemma non_string_trim_map:
  "distinct (map fst fs) \<Longrightarrow> \<forall>s. obj_get fs k \<noteq> JStr s \<Longrightarrow>
   map (\<lambda>(k', v). if k' = k then (k', trim_val v) else (k', v)) fs = fs"
proof (intro map_idI)
  fix x assume d: "distinct (map fst fs)" and n: "\<forall>s. obj_get fs k \<noteq> JStr s" and x: "x \<in> set fs"
  obtain k' v where kv: "x = (k', v)" by (cases x)
  show "(case x of (k', v) \<Rightarrow> if k' = k then (k', trim_val v) else (k', v)) = x"
  proof (cases "k' = k")
    case True
    with d x kv have "obj_get fs k = v" by (simp add: obj_get_in)
    with n have "trim_val v = v" by (cases v) (auto simp: trim_val_def)
    with kv True show ?thesis by simp
  next
    case False
    with kv show ?thesis by simp
  qed
qed

lemma validate_step_fields:
  assumes "distinct (map fst fs)"
  shows "(case obj_get fs k of JStr s \<Rightarrow> obj_set fs k (JStr (trim s)) | _ \<Rightarrow> fs) = trim_keys [k] fs"
proof (cases "\<exists>s. obj_get fs k = JStr s")
  case True
  then obtain s where s: "obj_get fs k = JStr s" by blast
  with obj_set_trim_map[OF assms s] show ?thesis by (simp add: trim_keys_def)
next
  case False
  then have "\<forall>s. obj_get fs k \<noteq> JStr s" by blast
  from non_string_trim_map[OF assms this] False show ?thesis
    by (cases "obj_get fs k") (simp_all add: trim_keys_def)
qed

lemma keys_trim_keys: "map fst (trim_keys ks fs) = map fst fs"
  by (induction fs) (auto simp: trim_keys_def)

lemma map_of_trim_keys:
  "map_of (trim_keys ks fs) k = map_option (\<lambda>v. if k \<in> set ks then trim_val v else v) (map_of fs k)"
  by (induction fs) (simp_all add: trim_keys_def split: prod.splits)

lemma obj_get_trim_keys:
  "obj_get (trim_keys ks fs) k = (if k \<in> set ks then trim_val (obj_get fs k) else obj_get fs k)"
  by (cases "map_of fs k") (simp_all add: obj_get_def map_of_trim_keys trim_val_def)

lemma trim_keys_trim_keys:
  "k \<notin> set ks \<Longrightarrow> trim_keys ks (trim_keys [k] fs) = trim_keys (k # ks) fs"
  by (induction fs) (auto simp: trim_keys_def)

lemma trim_keys_all: "trim_keys (map fst fs) fs = trimmed_fields fs"
  unfolding trim_keys_def trimmed_fields_def
  by (rule map_cong) force+

lemma obj_get_trimmed: "obj_get (trimmed_fields fs) k = trim_val (obj_get fs k)"
proof -
  have "map_of (trimmed_fields fs) k = map_option trim_val (map_of fs k)"
    by (induction fs) (simp_all add: trimmed_fields_def split: prod.splits)
  then show ?thesis
    by (cases "map_of fs k") (simp_all add: obj_get_def trim_val_def)
qed

lemma keys_trimmed: "obj_keys (trimmed_fields fs) = obj_keys fs"
  by (induction fs) (auto simp: trimmed_fields_def obj_keys_def)

lemma wf_trimmed: "wf_obj fs \<Longrightarrow> wf_obj (trimmed_fields fs)"
  using keys_trimmed[of fs] by (simp add: wf_obj_def obj_keys_def)

text \<open>The loop invariant: after the keys \<open>ks\<close>, exactly their values are trimmed, and the
  names pushed are those whose submitted value made them invalid.\<close>

lemma validate_loop_spec:
  "distinct (map fst fs) \<Longrightarrow> distinct ks \<Longrightarrow>
   validate_loop allowed ks fs acc =
     (trim_keys ks fs, acc @ filter (\<lambda>k. k \<notin> set allowed \<and> obj_get fs k \<noteq> JStr []) ks)"
proof (induction ks arbitrary: fs acc)
  case Nil
  then show ?case by (simp add: trim_keys_def)
next
  case (Cons k ks)
  let ?fs1 = "trim_keys [k] fs"
  have d1: "distinct (map fst ?fs1)" using Cons.prems(1) by (simp add: keys_trim_keys)
  have k: "k \<notin> set ks" and dk: "distinct ks" using Cons.prems(2) by simp_all
  have same: "filter (\<lambda>k'. k' \<notin> set allowed \<and> obj_get ?fs1 k' \<noteq> JStr []) ks
      = filter (\<lambda>k'. k' \<notin> set allowed \<and> obj_get fs k' \<noteq> JStr []) ks"
    using k by (intro filter_cong) (auto simp: obj_get_trim_keys)
  let ?acc1 = "if k \<notin> set allowed \<and> obj_get fs k \<noteq> JStr [] then acc @ [k] else acc"
  have "validate_loop allowed (k # ks) fs acc = validate_loop allowed ks ?fs1 ?acc1"
    by (simp only: validate_loop.simps Let_def validate_step_fields[OF Cons.prems(1)])
  also have "\<dots> = (trim_keys ks ?fs1, ?acc1 @ filter (\<lambda>k'. k' \<notin> set allowed \<and> obj_get ?fs1 k' \<noteq> JStr []) ks)"
    by (rule Cons.IH[OF d1 dk])
  also have "\<dots> = (trim_keys (k # ks) fs, acc @ filter (\<lambda>k'. k' \<notin> set allowed \<and> obj_get fs k' \<noteq> JStr []) (k # ks))"
    by (simp add: same trim_keys_trim_keys[OF k])
  finally show ?case .
qed

lemma validateFields_eq:
  assumes "wf_obj flds"
  shows "validateFields cfg flds =
     (if spec_missing cfg flds = [] \<and> spec_invalid cfg flds = [] then None
      else Some ((if spec_missing cfg flds \<noteq> [] then [MISSING_REQUIRED_FIELDS (spec_missing cfg flds)] else [])
               @ (if spec_invalid cfg flds \<noteq> [] then [INVALID_FIELDS (spec_invalid cfg flds)] else [])),
      trimmed_fields flds)"
proof -
  have d: "distinct (map fst flds)" and dk: "distinct (obj_keys flds)"
    using assms by (simp_all add: wf_obj_def obj_keys_def)
  have loop: "validate_loop (allowedFields cfg) (obj_keys flds) flds [] =
      (trimmed_fields flds, spec_invalid cfg flds)"
    using validate_loop_spec[OF d dk, of "allowedFields cfg" "[]"]
    by (simp add: spec_invalid_def obj_keys_def trim_keys_all)
  have mis: "missing_required (requiredFields cfg) (trimmed_fields flds) = spec_missing cfg flds"
    by (simp add: missing_required_def spec_missing_def)
  show ?thesis
    unfolding validateFields_def loop mis Let_def prod.case by simp
qed

lemma reported_invalid_validate:
  "wf_obj flds \<Longrightarrow> reported_invalid (fst (validateFields cfg flds)) = spec_invalid cfg flds"
  by (cases "spec_missing cfg flds = []"; cases "spec_invalid cfg flds = []")
     (simp_all add: validateFields_eq)

lemma reported_missing_validate:
  "wf_obj flds \<Longrightarrow> reported_missing (fst (validateFields cfg flds)) = spec_missing cfg flds"
  by (cases "spec_missing cfg flds = []"; cases "spec_invalid cfg flds = []")
     (simp_all add: validateFields_eq)

lemma snd_validate:
  "wf_obj flds \<Longrightarrow> snd (validateFields cfg flds) = trimmed_fields flds"
  by (simp add: validateFields_eq)

text \<open>
  What \<^verbatim>\<open>_validateFields\<close> does on every submission: the invalid names are the
  submitted fields that are not allowed and not empty; every string is trimmed; the
  missing names are the required names that the trimmed submission, read through its
  prototype, holds as \<^verbatim>\<open>undefined\<close> or empty, among them every required name that
  \<^verbatim>\<open>Object.prototype\<close> does not have and whose submitted value is missing or empty;
  the validation fails exactly when a list is not empty, with one entry for each list
  that is not empty.
\<close>

lemma validateFields_props:
  assumes "wf_obj flds"
  shows "\<forall>k. k \<in> set (reported_invalid (fst (validateFields cfg flds))) \<longleftrightarrow>
            k \<in> set (obj_keys flds) \<and> k \<notin> set (allowedFields cfg) \<and> obj_get flds k \<noteq> JStr []"
    and "snd (validateFields cfg flds) = trimmed_fields flds"
    and "\<forall>k. k \<in> set (reported_missing (fst (validateFields cfg flds))) \<longleftrightarrow>
            k \<in> set (requiredFields cfg) \<and>
            (obj_index (trimmed_fields flds) k = JUndefined \<or> obj_index (trimmed_fields flds) k = JStr [])"
    and "\<forall>k \<in> set (requiredFields cfg). prototype_member k = None \<longrightarrow>
            obj_get flds k = JUndefined \<or> obj_get flds k = JStr [] \<longrightarrow>
            k \<in> set (reported_missing (fst (validateFields cfg flds)))"
    and "fst (validateFields cfg flds) \<noteq> None \<longleftrightarrow>
            reported_missing (fst (validateFields cfg flds)) \<noteq> [] \<or>
            reported_invalid (fst (validateFields cfg flds)) \<noteq> []"
    and "fst (validateFields cfg flds) \<noteq> None \<longrightarrow>
            fst (validateFields cfg flds) =
              Some ((if reported_missing (fst (validateFields cfg flds)) \<noteq> []
                     then [MISSING_REQUIRED_FIELDS (reported_missing (fst (validateFields cfg flds)))] else [])
                  @ (if reported_invalid (fst (validateFields cfg flds)) \<noteq> []
                     then [INVALID_FIELDS (reported_invalid (fst (validateFields cfg flds)))] else []))"
proof -
  note eq = validateFields_eq[OF assms, of cfg]
  note inv' = reported_invalid_validate[OF assms, of cfg]
  note mis = reported_missing_validate[OF assms, of cfg]
  show "\<forall>k. k \<in> set (reported_invalid (fst (validateFields cfg flds))) \<longleftrightarrow>
            k \<in> set (obj_keys flds) \<and> k \<notin> set (allowedFields cfg) \<and> obj_get flds k \<noteq> JStr []"
    unfolding inv' by (auto simp: spec_invalid_def)
  show "snd (validateFields cfg flds) = trimmed_fields flds"
    unfolding eq by simp
  show "\<forall>k. k \<in> set (reported_missing (fst (validateFields cfg flds))) \<longleftrightarrow>
            k \<in> set (requiredFields cfg) \<and>
            (obj_index (trimmed_fields flds) k = JUndefined \<or> obj_index (trimmed_fields flds) k = JStr [])"
    unfolding mis by (auto simp: spec_missing_def)
  show "\<forall>k \<in> set (requiredFields cfg). prototype_member k = None \<longrightarrow>
            obj_get flds k = JUndefined \<or> obj_get flds k = JStr [] \<longrightarrow>
            k \<in> set (reported_missing (fst (validateFields cfg flds)))"
    unfolding mis by (auto simp: spec_missing_def obj_index_plain obj_get_trimmed trim_val_def trim_Nil)
  show "fst (validateFields cfg flds) \<noteq> None \<longleftrightarrow>
            reported_missing (fst (validateFields cfg flds)) \<noteq> [] \<or>
            reported_invalid (fst (validateFields cfg flds)) \<noteq> []"
    unfolding inv' mis unfolding eq by simp
  show "fst (validateFields cfg flds) \<noteq> None \<longrightarrow>
            fst (validateFields cfg flds) =
              Some ((if reported_missing (fst (validateFields cfg flds)) \<noteq> []
                     then [MISSING_REQUIRED_FIELDS (reported_missing (fst (validateFields cfg flds)))] else [])
                  @ (if reported_invalid (fst (validateFields cfg flds)) \<noteq> []
                     then [INVALID_FIELDS (reported_invalid (fst (validateFields cfg flds)))] else []))"
    unfolding inv' mis unfolding eq by simp
qed

lemma example_validation:
  "validateFields example_config example_fields =
     (Some [MISSING_REQUIRED_FIELDS [''name''], INVALID_FIELDS [''x'']],
      [(''name'', JStr []), (''x'', JStr []), (''y'', JStr []), (''message'', JStr ''hi'')])"
  by code_simp

text \<open>
  Claim C1 (a defect of the code). \<^verbatim>\<open>_validateFields\<close> reads a required field as
  \<^verbatim>\<open>fields[field]\<close>, which also finds the members of \<^verbatim>\<open>Object.prototype\<close>. With
  \<^verbatim>\<open>requiredFields = ['constructor']\<close> and a submission without any field, the
  required field is missing, yet nothing is reported and the validation succeeds.
\<close>

theorem validateFields_inherited_required:
  "''constructor'' \<in> set (requiredFields constructor_config)
   \<and> ''constructor'' \<notin> set (obj_keys [])
   \<and> validateFields constructor_config [] = (None, [])"
proof -
  have a: "''constructor'' \<in> set (requiredFields constructor_config)"
    by (simp add: constructor_config_def)
  have b: "''constructor'' \<notin> set (obj_keys [])" by (simp add: obj_keys_def)
  have c: "validateFields constructor_config [] = (None, [])" by code_simp
  from a b c show ?thesis by (intro conjI)
qed

text \<open>
  Claim C9. The two checks of \<^verbatim>\<open>_validateFields\<close> sit on either side of the trimming:
  a submitted field whose value is a non-empty string of white space only (any white
  space that \<^verbatim>\<open>trim\<close> strips) is reported invalid when it is not allowed, although
  its value after trimming is empty; and it is reported missing when it is required.
\<close>

theorem validateFields_trim_asymmetry:
  assumes "wf_obj flds" and "obj_get flds f = JStr s" and "s \<noteq> []" and "ws_only s"
  shows "(f \<notin> set (allowedFields cfg) \<longrightarrow>
            f \<in> set (reported_invalid (fst (validateFields cfg flds))))
       \<and> obj_get (snd (validateFields cfg flds)) f = JStr []
       \<and> (f \<in> set (requiredFields cfg) \<longrightarrow>
            f \<in> set (reported_missing (fst (validateFields cfg flds))))"
proof -
  have key: "f \<in> set (obj_keys flds)"
  proof (cases "map_of flds f")
    case None
    with assms(2) show ?thesis by (simp add: obj_get_def)
  next
    case (Some v)
    then have "(f, v) \<in> set flds" by (rule map_of_SomeD)
    then show ?thesis by (force simp: obj_keys_def)
  qed
  have tr: "obj_get (trimmed_fields flds) f = JStr []"
    using assms(2,4) by (simp add: obj_get_trimmed trim_val_def trim_ws_only)
  have key': "f \<in> set (obj_keys (trimmed_fields flds))"
    using key by (simp add: keys_trimmed)
  have tr': "obj_index (trimmed_fields flds) f = JStr []"
    using obj_index_own[OF key'] tr by simp
  have a: "f \<notin> set (allowedFields cfg) \<longrightarrow> f \<in> set (reported_invalid (fst (validateFields cfg flds)))"
    unfolding reported_invalid_validate[OF assms(1)] using key assms(2,3) by (simp add: spec_invalid_def)
  have b: "obj_get (snd (validateFields cfg flds)) f = JStr []"
    unfolding snd_validate[OF assms(1)] using tr by simp
  have c: "f \<in> set (requiredFields cfg) \<longrightarrow> f \<in> set (reported_missing (fst (validateFields cfg flds)))"
    unfolding reported_missing_validate[OF assms(1)] using tr' by (simp add: spec_missing_def)
  from a b c show ?thesis by blast
qed

theorem validateFields_trim_asymmetry_witness:
  "wf_obj nbsp_fields
   \<and> obj_get nbsp_fields ''x'' = JStr [CHR 0xE2, CHR 0x80, CHR 0x83, CHR 0x20]
   \<and> ws_only [CHR 0xE2, CHR 0x80, CHR 0x83, CHR 0x20]
   \<and> ''x'' \<notin> set (allowedFields example_config)
   \<and> ''x'' \<in> set (reported_invalid (fst (validateFields example_config nbsp_fields)))
   \<and> obj_get (snd (validateFields example_config nbsp_fields)) ''x'' = JStr []
   \<and> obj_get nbsp_fields ''name'' = JStr [CHR 0xC2, CHR 0xA0]
   \<and> ws_only [CHR 0xC2, CHR 0xA0]
   \<and> ''name'' \<in> set (requiredFields example_config)
   \<and> ''name'' \<in> set (reported_missing (fst (validateFields example_config nbsp_fields)))
   \<and> validateFields example_config nbsp_fields =
       (Some [MISSING_REQUIRED_FIELDS [''name''], INVALID_FIELDS [''x'']],
        [(''name'', JStr []), (''x'', JStr []), (''message'', JStr ''a b'')])"
proof -
  have wf: "wf_obj nbsp_fields" by (simp add: nbsp_fields_def wf_obj_def)
  have x2: "obj_get nbsp_fields ''x'' = JStr [CHR 0xE2, CHR 0x80, CHR 0x83, CHR 0x20]"
    by (simp add: nbsp_fields_def obj_get_def)
  have x3: "[CHR 0xE2, CHR 0x80, CHR 0x83, CHR 0x20] \<noteq> []" by simp
  have x4: "ws_only [CHR 0xE2, CHR 0x80, CHR 0x83, CHR 0x20]"
    unfolding ws_only_def
    by (rule exI[of _ "[[CHR 0xE2, CHR 0x80, CHR 0x83], [CHR 0x20]]"]) (simp add: white_space_def)
  have x5: "''x'' \<notin> set (allowedFields example_config)" by (simp add: example_config_def)
  note tx = validateFields_trim_asymmetry[OF wf x2 x3 x4, of example_config]
  from tx x5 have cx1: "''x'' \<in> set (reported_invalid (fst (validateFields example_config nbsp_fields)))"
    by blast
  from tx have cx2: "obj_get (snd (validateFields example_config nbsp_fields)) ''x'' = JStr []"
    by blast
  have n2: "obj_get nbsp_fields ''name'' = JStr [CHR 0xC2, CHR 0xA0]"
    by (simp add: nbsp_fields_def obj_get_def)
  have n3: "[CHR 0xC2, CHR 0xA0] \<noteq> []" by simp
  have n4: "ws_only [CHR 0xC2, CHR 0xA0]"
    unfolding ws_only_def
    by (rule exI[of _ "[[CHR 0xC2, CHR 0xA0]]"]) (simp add: white_space_def)
  have n5: "''name'' \<in> set (requiredFields example_config)" by (simp add: example_config_def)
  note tn = validateFields_trim_asymmetry[OF wf n2 n3 n4, of example_config]
  from tn n5 have cn: "''name'' \<in> set (reported_missing (fst (validateFields example_config nbsp_fields)))"
    by blast
  have ev: "validateFields example_config nbsp_fields =
       (Some [MISSING_REQUIRED_FIELDS [''name''], INVALID_FIELDS [''x'']],
        [(''name'', JStr []), (''x'', JStr []), (''message'', JStr ''a b'')])"
    by code_simp
  from wf x2 x4 x5 cx1 cx2 n2 n4 n5 cn ev show ?thesis by (intro conjI)
qed

section \<open>Properties of configuration validation\<close>

lemma filter_required_nonempty:
  "(filter P requiredConfigFields \<noteq> []) = (\<exists>f \<in> set requiredConfigFields. P f)"
  by (simp add: filter_empty_conv)

lemma validateConfig_accepts:
  assumes "truthy config"
      and "\<forall>f \<in> set requiredConfigFields. objectPath_get config f \<noteq> JUndefined"
      and "origin_check_passes L this config"
  shows "validateConfig L this config = Inr (None, this\<lparr>this_siteConfig := Some (SiteConfig L config)\<rparr>)"
proof -
  have nomiss: "filter (\<lambda>f. objectPath_get config f = JUndefined) requiredConfigFields = []"
    using assms(2) by (simp add: filter_empty_conv)
  show ?thesis
  proof (cases "js_prop config ''allowedOrigins''")
    case (JArr origins)
    show ?thesis
    proof (cases "origins = []")
      case True
      with JArr nomiss assms(1) show ?thesis
        by (simp add: validateConfig_def Let_def js_prop_def)
    next
      case False
      with assms(3) JArr obtain u where u: "obj_get (this_options this) ''origin'' = JStr u"
        and ne: "u \<noteq> []" and mem: "hostname_value (url_hostname L u) \<in> set origins"
        by (auto simp: origin_check_passes_def split: jsval.splits)
      from mem have "list_ex (\<lambda>entry. entry = hostname_value (url_hostname L u)) origins"
        by (simp add: list_ex_iff)
      with JArr nomiss assms(1) False u ne show ?thesis
        by (simp add: validateConfig_def Let_def js_prop_def)
    qed
  qed (use assms nomiss in \<open>auto simp: validateConfig_def Let_def origin_check_passes_def\<close>)
qed

text \<open>
  Claim C4. A configuration that is absent (a falsy value) fails with
  \<^verbatim>\<open>MISSING_CONFIG_BLOCK\<close>; a present one lacking any of \<^verbatim>\<open>allowedFields\<close>,
  \<^verbatim>\<open>branch\<close>, \<^verbatim>\<open>format\<close>, \<^verbatim>\<open>path\<close> fails with \<^verbatim>\<open>MISSING_CONFIG_FIELDS\<close>
  carrying exactly the missing names, in that order; one with all four present that
  passes the origin check succeeds: \<^verbatim>\<open>null\<close> is returned and the site configuration
  is set.
\<close>

theorem validateConfig_required_fields:
  "(\<not> truthy config \<longrightarrow> validateConfig L this config = Inr (Some MISSING_CONFIG_BLOCK, this))
   \<and> (truthy config \<and>
        (\<exists>f \<in> set [''allowedFields'', ''branch'', ''format'', ''path'']. objectPath_get config f = JUndefined) \<longrightarrow>
        validateConfig L this config =
          Inr (Some (MISSING_CONFIG_FIELDS
                 (filter (\<lambda>f. objectPath_get config f = JUndefined)
                    [''allowedFields'', ''branch'', ''format'', ''path''])), this))
   \<and> (truthy config \<and>
        (\<forall>f \<in> set [''allowedFields'', ''branch'', ''format'', ''path'']. objectPath_get config f \<noteq> JUndefined) \<and>
        origin_check_passes L this config \<longrightarrow>
        validateConfig L this config = Inr (None, this\<lparr>this_siteConfig := Some (SiteConfig L config)\<rparr>))"
proof (intro conjI impI)
  assume "\<not> truthy config"
  then show "validateConfig L this config = Inr (Some MISSING_CONFIG_BLOCK, this)"
    by (simp add: validateConfig_def)
next
  assume a: "truthy config \<and>
        (\<exists>f \<in> set [''allowedFields'', ''branch'', ''format'', ''path'']. objectPath_get config f = JUndefined)"
  then have "filter (\<lambda>f. objectPath_get config f = JUndefined) requiredConfigFields \<noteq> []"
    unfolding filter_required_nonempty by (simp add: requiredConfigFields_def)
  with a show "validateConfig L this config =
          Inr (Some (MISSING_CONFIG_FIELDS
                 (filter (\<lambda>f. objectPath_get config f = JUndefined)
                    [''allowedFields'', ''branch'', ''format'', ''path''])), this)"
    by (simp add: validateConfig_def Let_def requiredConfigFields_def)
next
  assume a: "truthy config \<and>
        (\<forall>f \<in> set [''allowedFields'', ''branch'', ''format'', ''path'']. objectPath_get config f \<noteq> JUndefined) \<and>
        origin_check_passes L this config"
  then show "validateConfig L this config = Inr (None, this\<lparr>this_siteConfig := Some (SiteConfig L config)\<rparr>)"
    by (intro validateConfig_accepts) (simp_all add: requiredConfigFields_def)
qed

lemma example_request_simps:
  "this_options example_request = [(''parent'', JStr ''123''), (''origin'', JStr ''http://example.com/page'')]"
  "this_uid example_request = ''abc''"
  by (simp_all add: example_request_def)

theorem validateConfig_required_fields_witness:
  "\<not> truthy JUndefined
   \<and> validateConfig example_lib example_request JUndefined = Inr (Some MISSING_CONFIG_BLOCK, example_request)
   \<and> truthy (JObj [(''branch'', JStr ''master'')])
   \<and> validateConfig example_lib example_request (JObj [(''branch'', JStr ''master'')]) =
       Inr (Some (MISSING_CONFIG_FIELDS [''allowedFields'', ''format'', ''path'']), example_request)
   \<and> truthy example_raw_config
   \<and> origin_check_passes example_lib example_request example_raw_config
   \<and> validateConfig example_lib example_request example_raw_config =
       Inr (None, example_request\<lparr>this_siteConfig := Some example_config\<rparr>)"
proof -
  have a1: "\<not> truthy JUndefined" by simp
  from validateConfig_required_fields[of JUndefined example_lib example_request] a1
  have c1: "validateConfig example_lib example_request JUndefined = Inr (Some MISSING_CONFIG_BLOCK, example_request)"
    by blast
  let ?c = "JObj [(''branch'', JStr ''master'')]"
  have a2: "truthy ?c" by simp
  have m: "objectPath_get ?c ''allowedFields'' = JUndefined" "objectPath_get ?c ''branch'' \<noteq> JUndefined"
    "objectPath_get ?c ''format'' = JUndefined" "objectPath_get ?c ''path'' = JUndefined"
    by code_simp+
  have a2': "\<exists>f \<in> set [''allowedFields'', ''branch'', ''format'', ''path'']. objectPath_get ?c f = JUndefined"
    using m by simp
  from validateConfig_required_fields[of ?c example_lib example_request] a2 a2'
  have "validateConfig example_lib example_request ?c =
          Inr (Some (MISSING_CONFIG_FIELDS
                 (filter (\<lambda>f. objectPath_get ?c f = JUndefined)
                    [''allowedFields'', ''branch'', ''format'', ''path''])), example_request)"
    by blast
  then have c2: "validateConfig example_lib example_request ?c =
       Inr (Some (MISSING_CONFIG_FIELDS [''allowedFields'', ''format'', ''path'']), example_request)"
    using m by simp
  have a3: "truthy example_raw_config" by (simp add: example_raw_config_def)
  have p: "objectPath_get example_raw_config ''allowedFields'' \<noteq> JUndefined"
    "objectPath_get example_raw_config ''branch'' \<noteq> JUndefined"
    "objectPath_get example_raw_config ''format'' \<noteq> JUndefined"
    "objectPath_get example_raw_config ''path'' \<noteq> JUndefined"
    by code_simp+
  have a3': "\<forall>f \<in> set [''allowedFields'', ''branch'', ''format'', ''path'']. objectPath_get example_raw_config f \<noteq> JUndefined"
    using p by simp
  have a3'': "origin_check_passes example_lib example_request example_raw_config"
    by code_simp
  have sc: "SiteConfig example_lib example_raw_config = example_config"
    by (simp add: example_lib_def)
  from validateConfig_required_fields[of example_raw_config example_lib example_request] a3 a3' a3''
  have "validateConfig example_lib example_request example_raw_config =
       Inr (None, example_request\<lparr>this_siteConfig := Some (SiteConfig example_lib example_raw_config)\<rparr>)"
    by blast
  then have c3: "validateConfig example_lib example_request example_raw_config =
       Inr (None, example_request\<lparr>this_siteConfig := Some example_config\<rparr>)"
    unfolding sc .
  from a1 c1 a2 c2 a3 a3'' c3 show ?thesis by (intro conjI)
qed

text \<open>
  Claim C7. For a configuration object with the four required fields whose
  \<^verbatim>\<open>allowedOrigins\<close> is a non-empty list: validation fails with \<^verbatim>\<open>MISSING_ORIGIN\<close>
  when \<^verbatim>\<open>options.origin\<close> is absent (falsy), fails with \<^verbatim>\<open>INVALID_ORIGIN\<close> when
  the hostname parsed from \<^verbatim>\<open>options.origin\<close> equals no entry of the list, and is
  accepted when the hostname equals some entry.
\<close>

theorem validateConfig_origin:
  assumes "config = JObj c"
      and "\<forall>f \<in> set [''allowedFields'', ''branch'', ''format'', ''path'']. objectPath_get config f \<noteq> JUndefined"
      and "obj_get c ''allowedOrigins'' = JArr origins"
      and "origins \<noteq> []"
  shows "(\<not> truthy (obj_get (this_options this) ''origin'') \<longrightarrow>
            validateConfig L this config = Inr (Some MISSING_ORIGIN, this))
       \<and> (\<forall>u. obj_get (this_options this) ''origin'' = JStr u \<and> u \<noteq> [] \<and> hostname_value (url_hostname L u) \<notin> set origins \<longrightarrow>
            validateConfig L this config = Inr (Some INVALID_ORIGIN, this))
       \<and> (\<forall>u. obj_get (this_options this) ''origin'' = JStr u \<and> u \<noteq> [] \<and> hostname_value (url_hostname L u) \<in> set origins \<longrightarrow>
            validateConfig L this config = Inr (None, this\<lparr>this_siteConfig := Some (SiteConfig L config)\<rparr>))"
proof -
  have nomiss: "filter (\<lambda>f. objectPath_get config f = JUndefined) requiredConfigFields = []"
    using assms(2) by (simp add: filter_empty_conv requiredConfigFields_def)
  have ao: "js_prop config ''allowedOrigins'' = JArr origins"
    using assms(1,3) by (simp add: js_prop_def)
  have len: "truthy (js_prop (JArr origins) ''length'')"
    using assms(4) by (simp add: js_prop_def)
  have t: "truthy config" using assms(1) by simp
  have a: "\<not> truthy (obj_get (this_options this) ''origin'') \<longrightarrow>
            validateConfig L this config = Inr (Some MISSING_ORIGIN, this)"
    using nomiss ao len t by (simp add: validateConfig_def Let_def)
  have b: "\<forall>u. obj_get (this_options this) ''origin'' = JStr u \<and> u \<noteq> [] \<and> hostname_value (url_hostname L u) \<notin> set origins \<longrightarrow>
            validateConfig L this config = Inr (Some INVALID_ORIGIN, this)"
    using nomiss ao len t by (simp add: validateConfig_def Let_def list_ex_iff)
  have c: "\<forall>u. obj_get (this_options this) ''origin'' = JStr u \<and> u \<noteq> [] \<and> hostname_value (url_hostname L u) \<in> set origins \<longrightarrow>
            validateConfig L this config = Inr (None, this\<lparr>this_siteConfig := Some (SiteConfig L config)\<rparr>)"
    using nomiss ao len t by (simp add: validateConfig_def Let_def list_ex_iff)
  from a b c show ?thesis by blast
qed

text \<open>The examples of the claim: with \<^verbatim>\<open>allowedOrigins: ["example.com"]\<close>, the origin
  \<^verbatim>\<open>http://evil.com\<close> is rejected and \<^verbatim>\<open>http://example.com/page\<close> is accepted.\<close>

theorem validateConfig_origin_witness:
  "validateConfig example_lib
      (example_request\<lparr>this_options := [(''origin'', JStr ''http://evil.com'')]\<rparr>) example_raw_config =
     Inr (Some INVALID_ORIGIN, example_request\<lparr>this_options := [(''origin'', JStr ''http://evil.com'')]\<rparr>)
   \<and> validateConfig example_lib example_request example_raw_config =
     Inr (None, example_request\<lparr>this_siteConfig := Some (SiteConfig example_lib example_raw_config)\<rparr>)
   \<and> validateConfig example_lib (example_request\<lparr>this_options := []\<rparr>) example_raw_config =
     Inr (Some MISSING_ORIGIN, example_request\<lparr>this_options := []\<rparr>)"
proof -
  let ?c = "[(''allowedFields'', JArr [JStr ''name'', JStr ''message'']),
     (''branch'', JStr ''master''), (''format'', JStr ''json''), (''path'', JStr ''posts/{options.parent}''),
     (''allowedOrigins'', JArr [JStr ''example.com''])]"
  have h1: "example_raw_config = JObj ?c" by (simp add: example_raw_config_def)
  have p: "objectPath_get example_raw_config ''allowedFields'' \<noteq> JUndefined"
    "objectPath_get example_raw_config ''branch'' \<noteq> JUndefined"
    "objectPath_get example_raw_config ''format'' \<noteq> JUndefined"
    "objectPath_get example_raw_config ''path'' \<noteq> JUndefined"
    by code_simp+
  have h2: "\<forall>f \<in> set [''allowedFields'', ''branch'', ''format'', ''path'']. objectPath_get example_raw_config f \<noteq> JUndefined"
    using p by simp
  have h3: "obj_get ?c ''allowedOrigins'' = JArr [JStr ''example.com'']"
    by (simp add: obj_get_def)
  have h4: "[JStr ''example.com''] \<noteq> []" by simp
  note t = validateConfig_origin[OF h1 h2 h3 h4, of _ example_lib]
  have evil: "url_hostname example_lib ''http://evil.com'' = Some ''evil.com''"
    unfolding example_lib_def by (simp, code_simp)
  have good: "url_hostname example_lib ''http://example.com/page'' = Some ''example.com''"
    unfolding example_lib_def by (simp, code_simp)
  let ?r1 = "example_request\<lparr>this_options := [(''origin'', JStr ''http://evil.com'')]\<rparr>"
  have o1: "obj_get (this_options ?r1) ''origin'' = JStr ''http://evil.com''"
    by (simp add: obj_get_def)
  from t[of ?r1] o1 evil have c1: "validateConfig example_lib ?r1 example_raw_config = Inr (Some INVALID_ORIGIN, ?r1)"
    by simp
  have o2: "obj_get (this_options example_request) ''origin'' = JStr ''http://example.com/page''"
    by (simp add: example_request_simps obj_get_def)
  from t[of example_request] o2 good have c2: "validateConfig example_lib example_request example_raw_config =
     Inr (None, example_request\<lparr>this_siteConfig := Some (SiteConfig example_lib example_raw_config)\<rparr>)"
    by simp
  let ?r3 = "example_request\<lparr>this_options := []\<rparr>"
  have o3: "\<not> truthy (obj_get (this_options ?r3) ''origin'')"
    by (simp add: obj_get_def)
  from t[of ?r3] o3 have c3: "validateConfig example_lib ?r3 example_raw_config = Inr (Some MISSING_ORIGIN, ?r3)"
    by blast
  from c1 c2 c3 show ?thesis by (intro conjI)
qed

section \<open>Properties of serialization\<close>

lemma find_declared:
  "find P xs = (case filter P xs of [] \<Rightarrow> None | x # _ \<Rightarrow> Some x)"
  by (induction xs) simp_all

lemma content_field_find:
  "(case transforms cfg of None \<Rightarrow> None
    | Some t \<Rightarrow> find (\<lambda>field. obj_get t field = JStr ''frontmatterContent'') (obj_keys t))
   = (case declared_content_fields cfg of [] \<Rightarrow> None | x # _ \<Rightarrow> Some x)"
  by (simp add: declared_content_fields_def find_declared split: option.splits)

lemma createFile_frontmatter:
  assumes "toLowerCase (format cfg) = ''frontmatter''"
  shows "createFile L cfg flds =
     (case declared_content_fields cfg of
        [] \<Rightarrow> (Inl NO_FRONTMATTER_CONTENT_TRANSFORM, flds)
      | cf # _ \<Rightarrow>
          if cf = [] then (Inl NO_FRONTMATTER_CONTENT_TRANSFORM, flds)
          else (case yaml_safeDump L (obj_delete flds cf) of
                  Inl err \<Rightarrow> (Inl (Thrown err), obj_delete flds cf)
                | Inr y \<Rightarrow> (Inr (''---'' @ newline @ y @ ''---'' @ newline @ ToString (obj_index flds cf) @ newline),
                            obj_delete flds cf)))"
  unfolding createFile_def content_field_find Let_def
  using assms by (simp split: list.splits)

lemma obj_delete_removed: "k \<notin> set (obj_keys (obj_delete flds k))"
  by (simp add: obj_keys_def obj_delete_def delete_keys)

lemma obj_delete_other: "k' \<noteq> k \<Longrightarrow> obj_get (obj_delete flds k) k' = obj_get flds k'"
  by (simp add: obj_get_def obj_delete_def delete_conv')

text \<open>
  Claim C3 (amended: the format is compared after lower-casing). In the front matter
  format \<^verbatim>\<open>_createFile\<close> fails with \<^verbatim>\<open>NO_FRONTMATTER_CONTENT_TRANSFORM\<close> when no
  field of \<^verbatim>\<open>transforms\<close> is declared as \<^verbatim>\<open>frontmatterContent\<close>; when it succeeds,
  a declared field exists, that field is removed from the mapping (the other fields keep
  their values), and the output is \<^verbatim>\<open>---\<close>, the YAML of the remaining fields,
  \<^verbatim>\<open>---\<close>, then the value read at the field (\<^verbatim>\<open>fields[contentField]\<close>). A format whose lower-cased value is none of
  \<^verbatim>\<open>json\<close>, \<^verbatim>\<open>yaml\<close>, \<^verbatim>\<open>yml\<close>, \<^verbatim>\<open>frontmatter\<close> fails with
  \<^verbatim>\<open>INVALID_FORMAT\<close>.
\<close>

theorem createFile_formats:
  "(toLowerCase (format cfg) = ''frontmatter'' \<and> declared_content_fields cfg = [] \<longrightarrow>
      createFile L cfg flds = (Inl NO_FRONTMATTER_CONTENT_TRANSFORM, flds))
   \<and> (toLowerCase (format cfg) = ''frontmatter'' \<and> fst (createFile L cfg flds) = Inr out \<longrightarrow>
      (\<exists>cf y. cf \<in> set (declared_content_fields cfg)
          \<and> snd (createFile L cfg flds) = obj_delete flds cf
          \<and> cf \<notin> set (obj_keys (obj_delete flds cf))
          \<and> (\<forall>k. k \<noteq> cf \<longrightarrow> obj_get (obj_delete flds cf) k = obj_get flds k)
          \<and> yaml_safeDump L (obj_delete flds cf) = Inr y
          \<and> out = ''---'' @ newline @ y @ ''---'' @ newline @ ToString (obj_index flds cf) @ newline))
   \<and> (toLowerCase (format cfg) \<notin> {''json'', ''yaml'', ''yml'', ''frontmatter''} \<longrightarrow>
      createFile L cfg flds = (Inl INVALID_FORMAT, flds))"
proof (intro conjI impI)
  assume "toLowerCase (format cfg) = ''frontmatter'' \<and> declared_content_fields cfg = []"
  then show "createFile L cfg flds = (Inl NO_FRONTMATTER_CONTENT_TRANSFORM, flds)"
    by (simp add: createFile_frontmatter)
next
  assume a: "toLowerCase (format cfg) = ''frontmatter'' \<and> fst (createFile L cfg flds) = Inr out"
  then have fm: "toLowerCase (format cfg) = ''frontmatter''" and ok: "fst (createFile L cfg flds) = Inr out"
    by simp_all
  note eq = createFile_frontmatter[OF fm, of L flds]
  from ok obtain cf rest where d: "declared_content_fields cfg = cf # rest"
    unfolding eq by (cases "declared_content_fields cfg") simp_all
  from ok d have ne: "cf \<noteq> []" unfolding eq by (auto split: if_splits)
  from ok d ne obtain y where y: "yaml_safeDump L (obj_delete flds cf) = Inr y"
    unfolding eq by (cases "yaml_safeDump L (obj_delete flds cf)") simp_all
  from ok d ne y have out: "out = ''---'' @ newline @ y @ ''---'' @ newline @ ToString (obj_index flds cf) @ newline"
    unfolding eq by simp
  have snd: "snd (createFile L cfg flds) = obj_delete flds cf"
    unfolding eq using d ne y by simp
  have mem: "cf \<in> set (declared_content_fields cfg)" using d by simp
  from mem snd y out obj_delete_removed[of cf flds] obj_delete_other[of _ cf flds]
  show "\<exists>cf y. cf \<in> set (declared_content_fields cfg)
          \<and> snd (createFile L cfg flds) = obj_delete flds cf
          \<and> cf \<notin> set (obj_keys (obj_delete flds cf))
          \<and> (\<forall>k. k \<noteq> cf \<longrightarrow> obj_get (obj_delete flds cf) k = obj_get flds k)
          \<and> yaml_safeDump L (obj_delete flds cf) = Inr y
          \<and> out = ''---'' @ newline @ y @ ''---'' @ newline @ ToString (obj_index flds cf) @ newline"
    by blast
next
  assume "toLowerCase (format cfg) \<notin> {''json'', ''yaml'', ''yml'', ''frontmatter''}"
  then show "createFile L cfg flds = (Inl INVALID_FORMAT, flds)"
    by (simp add: createFile_def Let_def)
qed

text \<open>The example of the claim: the content field \<^verbatim>\<open>body = "Hello"\<close> and the other
  field \<^verbatim>\<open>title = "T"\<close> (with the stand-in YAML printer).\<close>

lemma example_frontmatter:
  "createFile example_lib frontmatter_config [(''title'', JStr ''T''), (''body'', JStr ''Hello'')] =
     (Inr (''---'' @ newline @ ''title: T'' @ newline @ ''---'' @ newline @ ''Hello'' @ newline),
      [(''title'', JStr ''T'')])"
  by code_simp

theorem createFile_formats_witness:
  "toLowerCase (format frontmatter_config) = ''frontmatter''
   \<and> createFile example_lib frontmatter_config [(''title'', JStr ''T''), (''body'', JStr ''Hello'')] =
     (Inr (''---'' @ newline @ ''title: T'' @ newline @ ''---'' @ newline @ ''Hello'' @ newline),
      [(''title'', JStr ''T'')])
   \<and> declared_content_fields (frontmatter_config\<lparr>transforms := None\<rparr>) = []
   \<and> createFile example_lib (frontmatter_config\<lparr>transforms := None\<rparr>) [(''title'', JStr ''T'')] =
     (Inl NO_FRONTMATTER_CONTENT_TRANSFORM, [(''title'', JStr ''T'')])
   \<and> toLowerCase ''toml'' \<notin> {''json'', ''yaml'', ''yml'', ''frontmatter''}
   \<and> createFile example_lib (example_config\<lparr>format := ''toml''\<rparr>) [(''title'', JStr ''T'')] =
     (Inl INVALID_FORMAT, [(''title'', JStr ''T'')])"
proof -
  have f1: "toLowerCase (format frontmatter_config) = ''frontmatter''" by code_simp
  have f2: "toLowerCase (format (frontmatter_config\<lparr>transforms := None\<rparr>)) = ''frontmatter''" by code_simp
  have d2: "declared_content_fields (frontmatter_config\<lparr>transforms := None\<rparr>) = []"
    by (simp add: declared_content_fields_def)
  from createFile_formats[of "frontmatter_config\<lparr>transforms := None\<rparr>" example_lib "[(''title'', JStr ''T'')]"] f2 d2
  have c2: "createFile example_lib (frontmatter_config\<lparr>transforms := None\<rparr>) [(''title'', JStr ''T'')] =
     (Inl NO_FRONTMATTER_CONTENT_TRANSFORM, [(''title'', JStr ''T'')])"
    by blast
  have f3: "toLowerCase ''toml'' \<notin> {''json'', ''yaml'', ''yml'', ''frontmatter''}" by code_simp
  then have f3': "toLowerCase (format (example_config\<lparr>format := ''toml''\<rparr>)) \<notin> {''json'', ''yaml'', ''yml'', ''frontmatter''}"
    by simp
  from createFile_formats[of "example_config\<lparr>format := ''toml''\<rparr>" example_lib "[(''title'', JStr ''T'')]"] f3'
  have c3: "createFile example_lib (example_config\<lparr>format := ''toml''\<rparr>) [(''title'', JStr ''T'')] =
     (Inl INVALID_FORMAT, [(''title'', JStr ''T'')])"
    by blast
  from f1 example_frontmatter d2 c2 f3 c3 show ?thesis by (intro conjI)
qed

text \<open>The claim as stated fails for the format \<^verbatim>\<open>JSON\<close>: it is none of the four
  names, and the entry is serialized as JSON, not rejected.\<close>

theorem createFile_uppercase_counterexample:
  "''JSON'' \<notin> {''json'', ''yaml'', ''yml'', ''frontmatter''}
   \<and> createFile example_lib (example_config\<lparr>format := ''JSON''\<rparr>) [(''title'', JStr ''T'')] =
       (Inr (JSON_stringify example_lib (JObj [(''title'', JStr ''T'')])), [(''title'', JStr ''T'')])
   \<and> fst (createFile example_lib (example_config\<lparr>format := ''JSON''\<rparr>) [(''title'', JStr ''T'')]) \<noteq> Inl INVALID_FORMAT"
proof -
  have l: "toLowerCase ''JSON'' = ''json''" by code_simp
  have a: "''JSON'' \<notin> {''json'', ''yaml'', ''yml'', ''frontmatter''}" by simp
  have b: "createFile example_lib (example_config\<lparr>format := ''JSON''\<rparr>) [(''title'', JStr ''T'')] =
       (Inr (JSON_stringify example_lib (JObj [(''title'', JStr ''T'')])), [(''title'', JStr ''T'')])"
    by (simp add: createFile_def l)
  from a b show ?thesis by simp
qed

section \<open>Properties of the pipeline\<close>

lemma validateConfig_success:
  "validateConfig L this config = Inr (None, this') \<Longrightarrow>
   this' = this\<lparr>this_siteConfig := Some (SiteConfig L config)\<rparr>"
  unfolding validateConfig_def Let_def
  by (auto split: if_splits jsval.splits)

lemma getSiteConfig_success:
  assumes "getSiteConfig L W this force = (Inr this1, tr)"
  shows "this1 = this\<lparr>this_siteConfig := this_siteConfig this1\<rparr> \<and> list_all (\<lambda>e. \<not> is_write e) tr"
proof (cases "this_siteConfig this \<noteq> None \<and> \<not> force")
  case True
  with assms show ?thesis by (simp add: getSiteConfig_def)
next
  case False
  with assms obtain fl p where cp: "this_configPath this = Some (fl, p)"
    by (cases "this_configPath this") (auto simp: getSiteConfig_def)
  from assms False cp obtain data where rd: "github_readFile W fl = Inr data"
    by (cases "github_readFile W fl") (auto simp: getSiteConfig_def)
  let ?config = "objectPath_get data p"
  from assms False cp rd obtain this' where vc: "validateConfig L this ?config = Inr (None, this')"
    and eq: "this1 = this'" and tr: "tr = [ReadFile fl]"
    by (auto simp: getSiteConfig_def Let_def split: sum.splits option.splits if_splits prod.splits)
  from validateConfig_success[OF vc] eq tr show ?thesis by simp
qed

lemma prepareEntry_spam:
  assumes gs: "getSiteConfig L W this False = (Inr this1, tr1)"
      and sc: "this_siteConfig this1 = Some cfg"
      and en: "akismet_enabled cfg"
      and cb: "akismet_checkSpam W (spam_payload this1 cfg (this_fields this1)) = (err, isSpam)"
      and bad: "truthy err \<or> truthy isSpam"
  shows "prepareEntry L W this =
     (Inl (if truthy err then SpamCheckFailed err else IS_SPAM),
      tr1 @ [CheckSpam (spam_payload this1 cfg (this_fields this1))])"
proof -
  have "checkForSpam W this1 cfg (this_fields this1) =
     (Inl (if truthy err then SpamCheckFailed err else IS_SPAM),
      [CheckSpam (spam_payload this1 cfg (this_fields this1))])"
    using en cb bad by (auto simp: checkForSpam_def Let_def)
  then show ?thesis
    using gs sc by (simp add: prepareEntry_def)
qed

text \<open>
  Claim C6. In a run that has loaded its configuration, with spam checking enabled: when
  the classifier calls back with no error and a positive verdict the pipeline fails with
  \<^verbatim>\<open>IS_SPAM\<close>; when it calls back with an error the pipeline fails with that error;
  in both cases the call to the classifier is the last call the pipeline issues, and no
  call before it writes a file, creates a branch or opens a review request.
\<close>

theorem spam_short_circuit:
  assumes "getSiteConfig L W this False = (Inr this1, tr1)"
      and "this_siteConfig this1 = Some cfg"
      and "akismet_enabled cfg"
      and "akismet_checkSpam W (spam_payload this1 cfg (this_fields this1)) = (err, isSpam)"
  shows "(\<not> truthy err \<and> truthy isSpam \<longrightarrow>
            processEntry L W this =
              (Inl IS_SPAM, tr1 @ [CheckSpam (spam_payload this1 cfg (this_fields this1))]))
       \<and> (truthy err \<longrightarrow>
            processEntry L W this =
              (Inl (SpamCheckFailed err), tr1 @ [CheckSpam (spam_payload this1 cfg (this_fields this1))]))
       \<and> (truthy err \<or> truthy isSpam \<longrightarrow>
            list_all (\<lambda>e. \<not> is_write e) (snd (processEntry L W this)))"
proof -
  note p = prepareEntry_spam[OF assms]
  have nw: "list_all (\<lambda>e. \<not> is_write e) tr1"
    using getSiteConfig_success[OF assms(1)] by simp
  have a: "\<not> truthy err \<and> truthy isSpam \<longrightarrow>
            processEntry L W this =
              (Inl IS_SPAM, tr1 @ [CheckSpam (spam_payload this1 cfg (this_fields this1))])"
    using p by (simp add: processEntry_def)
  have b: "truthy err \<longrightarrow>
            processEntry L W this =
              (Inl (SpamCheckFailed err), tr1 @ [CheckSpam (spam_payload this1 cfg (this_fields this1))])"
    using p by (simp add: processEntry_def)
  have c: "truthy err \<or> truthy isSpam \<longrightarrow>
            list_all (\<lambda>e. \<not> is_write e) (snd (processEntry L W this))"
    using p nw by (auto simp: processEntry_def)
  from a b c show ?thesis by blast
qed

theorem spam_short_circuit_witness:
  "processEntry spam_lib example_world example_request =
     (Inl IS_SPAM,
      [ReadFile ''staticman.yml'',
       CheckSpam (spam_payload example_request (example_config\<lparr>akismet_enabled := True\<rparr>)
                    (this_fields example_request))])
   \<and> list_all (\<lambda>e. \<not> is_write e) (snd (processEntry spam_lib example_world example_request))
   \<and> processEntry spam_lib failing_classifier_world example_request =
     (Inl (SpamCheckFailed (JStr ''ETIMEDOUT'')),
      [ReadFile ''staticman.yml'',
       CheckSpam (spam_payload example_request (example_config\<lparr>akismet_enabled := True\<rparr>)
                    (this_fields example_request))])"
proof -
  let ?cfg = "example_config\<lparr>akismet_enabled := True\<rparr>"
  let ?this1 = "example_request\<lparr>this_siteConfig := Some ?cfg\<rparr>"
  have g1: "getSiteConfig spam_lib example_world example_request False = (Inr ?this1, [ReadFile ''staticman.yml''])"
    by code_simp
  have g2: "getSiteConfig spam_lib failing_classifier_world example_request False = (Inr ?this1, [ReadFile ''staticman.yml''])"
    by code_simp
  have sc: "this_siteConfig ?this1 = Some ?cfg" by simp
  have en: "akismet_enabled ?cfg" by simp
  have f: "this_fields ?this1 = this_fields example_request" by simp
  have pl: "spam_payload ?this1 ?cfg (this_fields ?this1) = spam_payload example_request ?cfg (this_fields example_request)"
    by (simp add: spam_payload_def)
  have cb1: "akismet_checkSpam example_world (spam_payload ?this1 ?cfg (this_fields ?this1)) = (JNull, JBool True)"
    by (simp add: example_world_def)
  have cb2: "akismet_checkSpam failing_classifier_world (spam_payload ?this1 ?cfg (this_fields ?this1)) = (JStr ''ETIMEDOUT'', JUndefined)"
    by (simp add: failing_classifier_world_def)
  note t1 = spam_short_circuit[OF g1 sc en cb1]
  note t2 = spam_short_circuit[OF g2 sc en cb2]
  from t1 have c1: "processEntry spam_lib example_world example_request =
     (Inl IS_SPAM, [ReadFile ''staticman.yml''] @ [CheckSpam (spam_payload ?this1 ?cfg (this_fields ?this1))])"
    by simp
  from t1 have c2: "list_all (\<lambda>e. \<not> is_write e) (snd (processEntry spam_lib example_world example_request))"
    by simp
  from t2 have c3: "processEntry spam_lib failing_classifier_world example_request =
     (Inl (SpamCheckFailed (JStr ''ETIMEDOUT'')), [ReadFile ''staticman.yml''] @ [CheckSpam (spam_payload ?this1 ?cfg (this_fields ?this1))])"
    by simp
  from c1 c2 c3 show ?thesis unfolding pl by simp
qed

lemma keys_obj_set: "set (obj_keys (obj_set ob k v)) = insert k (set (obj_keys ob))"
  by (auto simp: obj_keys_def obj_set_def update_keys)

lemma wf_obj_set: "wf_obj ob \<Longrightarrow> wf_obj (obj_set ob k v)"
  by (simp add: wf_obj_def obj_set_def distinct_update)

lemma keys_obj_put:
  "set (obj_keys (obj_put ob k v)) =
     (if k = ''__proto__'' \<and> k \<notin> set (obj_keys ob) then set (obj_keys ob)
      else insert k (set (obj_keys ob)))"
  by (auto simp: obj_put_def keys_obj_set)

lemma wf_obj_put: "wf_obj ob \<Longrightarrow> wf_obj (obj_put ob k v)"
  by (simp add: obj_put_def wf_obj_set)

lemma obj_get_absent: "k \<notin> set (obj_keys ob) \<Longrightarrow> obj_get ob k = JUndefined"
  by (simp add: obj_get_def obj_keys_def map_of_eq_None_iff[THEN iffD2])

lemma obj_assign_get:
  "distinct (map fst src) \<Longrightarrow> ''__proto__'' \<notin> set (obj_keys t) \<Longrightarrow>
   obj_get (obj_assign t src) k =
     (if k \<in> set (obj_keys src) \<and> k \<noteq> ''__proto__'' then obj_get src k else obj_get t k)"
proof (induction src arbitrary: t)
  case Nil
  then show ?case by (simp add: obj_keys_def)
next
  case (Cons a src)
  obtain k0 v0 where a: "a = (k0, v0)" by (cases a)
  from Cons.prems a have d: "distinct (map fst src)" and n: "k0 \<notin> set (obj_keys src)"
    by (simp_all add: obj_keys_def)
  show ?case
  proof (cases "k0 = ''__proto__''")
    case True
    have p: "obj_put t k0 v0 = t" using True Cons.prems(2) by (simp add: obj_put_def)
    have s1: "k \<noteq> ''__proto__'' \<Longrightarrow> obj_get (a # src) k = obj_get src k"
      using a True by (simp add: obj_get_def)
    have s2: "k \<noteq> ''__proto__'' \<Longrightarrow> k \<in> set (obj_keys (a # src)) \<longleftrightarrow> k \<in> set (obj_keys src)"
      using a True by (auto simp: obj_keys_def)
    have "obj_get (obj_assign t (a # src)) k =
        (if k \<in> set (obj_keys src) \<and> k \<noteq> ''__proto__'' then obj_get src k else obj_get t k)"
      unfolding a obj_assign.simps p by (rule Cons.IH[OF d Cons.prems(2)])
    then show ?thesis using s1 s2 by (cases "k = ''__proto__''") simp_all
  next
    case False
    have p: "obj_put t k0 v0 = obj_set t k0 v0" using False by (simp add: obj_put_def)
    have t': "''__proto__'' \<notin> set (obj_keys (obj_set t k0 v0))"
      using False Cons.prems(2) by (simp add: keys_obj_set)
    note ih = Cons.IH[OF d t']
    show ?thesis
    proof (cases "k = k0")
      case True
      have "obj_get (obj_assign t (a # src)) k = obj_get (obj_set t k0 v0) k0"
        unfolding a obj_assign.simps p using ih n True by simp
      also have "\<dots> = v0" by (rule obj_get_set_same)
      also have "v0 = obj_get (a # src) k" using a True by (simp add: obj_get_def)
      finally show ?thesis using a True False by (simp add: obj_keys_def)
    next
      case ne: False
      have s1: "obj_get (a # src) k = obj_get src k" using a ne by (simp add: obj_get_def)
      have s2: "k \<in> set (obj_keys (a # src)) \<longleftrightarrow> k \<in> set (obj_keys src)"
        using a ne by (auto simp: obj_keys_def)
      have "obj_get (obj_assign t (a # src)) k =
          (if k \<in> set (obj_keys src) \<and> k \<noteq> ''__proto__'' then obj_get src k
           else obj_get (obj_set t k0 v0) k)"
        unfolding a obj_assign.simps p by (rule ih)
      then show ?thesis unfolding s1 s2 using ne by (simp add: obj_get_set_other)
    qed
  qed
qed

lemma obj_assign_keys:
  "''__proto__'' \<notin> set (obj_keys t) \<Longrightarrow>
   set (obj_keys (obj_assign t src)) = set (obj_keys t) \<union> (set (obj_keys src) - {''__proto__''})"
proof (induction src arbitrary: t)
  case Nil
  then show ?case by (simp add: obj_keys_def)
next
  case (Cons a src)
  obtain k0 v0 where a: "a = (k0, v0)" by (cases a)
  have t': "''__proto__'' \<notin> set (obj_keys (obj_put t k0 v0))"
    using Cons.prems by (simp add: keys_obj_put)
  show ?case unfolding a obj_assign.simps Cons.IH[OF t'] keys_obj_put using Cons.prems
    by (auto simp: obj_keys_def)
qed

lemma generated_loop_keys:
  "generated_loop L W this gen i ks data = Inr data' \<Longrightarrow>
   (wf_obj data \<longrightarrow> wf_obj data') \<and> set (obj_keys data') \<subseteq> set (obj_keys data) \<union> set ks"
proof (induction ks arbitrary: i data)
  case Nil
  then show ?case by simp
next
  case (Cons field rest)
  from Cons.prems obtain d1 where
    step: "generated_loop L W this gen (Suc i) rest d1 = Inr data'"
    and d1: "d1 = data \<or> (\<exists>v. d1 = obj_put data field v)"
    by (auto split: jsval.splits if_splits sum.splits simp: Let_def)
  from Cons.IH[OF step] have ih: "(wf_obj d1 \<longrightarrow> wf_obj data') \<and> set (obj_keys data') \<subseteq> set (obj_keys d1) \<union> set rest" .
  from d1 have w: "wf_obj data \<longrightarrow> wf_obj d1" and k: "set (obj_keys d1) \<subseteq> insert field (set (obj_keys data))"
    by (auto simp: wf_obj_put keys_obj_put split: if_splits)
  from ih w k show ?case by auto
qed

lemma transform_loop_keys:
  "transform_loop L t ks flds = Inr flds' \<Longrightarrow>
   (wf_obj flds \<longrightarrow> wf_obj flds')
   \<and> set (obj_keys flds') \<subseteq> set (obj_keys flds) \<union> {k \<in> set ks. prototype_member k \<noteq> None}"
proof (induction ks arbitrary: flds)
  case Nil
  then show ?case by simp
next
  case (Cons field rest)
  show ?case
  proof (cases "truthy (obj_index flds field) \<and> obj_get t field = JStr ''md5''")
    case True
    with Cons.prems obtain h where h: "md5 L (obj_index flds field) = Inr h"
      and step: "transform_loop L t rest (obj_put flds field (JStr h)) = Inr flds'"
      by (auto split: sum.splits)
    have "field \<in> set (obj_keys flds) \<or> prototype_member field \<noteq> None"
    proof (rule ccontr)
      assume "\<not> (field \<in> set (obj_keys flds) \<or> prototype_member field \<noteq> None)"
      then have "obj_index flds field = JUndefined" by (simp add: obj_index_absent)
      with True show False by simp
    qed
    then have "set (obj_keys (obj_put flds field (JStr h))) \<subseteq>
        set (obj_keys flds) \<union> {k \<in> set (field # rest). prototype_member k \<noteq> None}"
      by (auto simp: keys_obj_put)
    with Cons.IH[OF step] show ?thesis by (auto simp: wf_obj_put)
  next
    case False
    with Cons.prems have "transform_loop L t rest flds = Inr flds'"
      by (auto split: if_splits)
    from Cons.IH[OF this] show ?thesis by auto
  qed
qed

lemma generated_keys_of: "set (obj_keys gen) = fst ` set gen"
  by (simp add: obj_keys_def)

lemma processFields_keys:
  assumes "wf_obj flds" and "processFields L W this cfg flds = Inr flds'"
  shows "wf_obj flds'
     \<and> set (obj_keys flds') \<subseteq> set (obj_keys flds) \<union> generated_names cfg \<union> inherited_transform_names cfg
     \<and> (\<exists>g. applyGeneratedFields L W this cfg (trimmed_fields flds) = Inr g \<and> applyTransforms L cfg g = Inr flds')"
proof -
  from assms(2) obtain g where
    v: "fst (validateFields cfg flds) = None"
    and g: "applyGeneratedFields L W this cfg (snd (validateFields cfg flds)) = Inr g"
    and t: "applyTransforms L cfg g = Inr flds'"
    by (auto simp: processFields_def split: prod.splits option.splits sum.splits)
  note tf = snd_validate[OF assms(1), of cfg]
  have w0: "wf_obj (trimmed_fields flds)" using assms(1) by (rule wf_trimmed)
  have gk: "wf_obj g \<and> set (obj_keys g) \<subseteq> set (obj_keys flds) \<union> generated_names cfg"
  proof (cases "generatedFields cfg")
    case None
    with g tf have "g = trimmed_fields flds" by (simp add: applyGeneratedFields_def)
    with w0 show ?thesis by (simp add: keys_trimmed)
  next
    case (Some gen)
    with g tf have "generated_loop L W this gen 0 (obj_keys gen) (trimmed_fields flds) = Inr g"
      by (simp add: applyGeneratedFields_def)
    from generated_loop_keys[OF this] w0 Some show ?thesis
      by (auto simp: generated_names_def keys_trimmed)
  qed
  have tk: "wf_obj flds' \<and> set (obj_keys flds') \<subseteq> set (obj_keys g) \<union> inherited_transform_names cfg"
  proof (cases "transforms cfg")
    case None
    with t gk show ?thesis by (simp add: applyTransforms_def)
  next
    case (Some tr)
    with t have "transform_loop L tr (obj_keys tr) g = Inr flds'"
      by (simp add: applyTransforms_def)
    from transform_loop_keys[OF this] gk Some show ?thesis
      by (simp add: inherited_transform_names_def)
  qed
  from gk tk g t tf show ?thesis by auto
qed

lemma checkForSpam_success:
  "checkForSpam W this cfg flds = (Inr flds', tr) \<Longrightarrow> flds' = flds \<and> list_all (\<lambda>e. \<not> is_write e) tr"
  by (auto simp: checkForSpam_def Let_def split: if_splits prod.splits)

lemma prepareEntry_success:
  assumes "fst (prepareEntry L W this) = Inr (this2, cfg, ext)"
  shows "\<exists>this1 tr1. getSiteConfig L W this False = (Inr this1, tr1)
          \<and> this_siteConfig this1 = Some cfg
          \<and> processFields L W this1 cfg (this_fields this) = Inr (this_fields this2)
          \<and> this2 = this1\<lparr>this_fields := this_fields this2\<rparr>
          \<and> this1 = this\<lparr>this_siteConfig := Some cfg\<rparr>
          \<and> ext = applyInternalFields this2 (this_fields this2)"
proof -
  obtain r1 tr1 where g: "getSiteConfig L W this False = (r1, tr1)" by (cases "getSiteConfig L W this False")
  with assms obtain this1 where r1: "r1 = Inr this1"
    by (cases r1) (auto simp: prepareEntry_def)
  from assms g r1 obtain cfg1 where sc: "this_siteConfig this1 = Some cfg1"
    by (cases "this_siteConfig this1") (auto simp: prepareEntry_def)
  obtain r2 tr2 where c: "checkForSpam W this1 cfg1 (this_fields this1) = (r2, tr2)"
    by (cases "checkForSpam W this1 cfg1 (this_fields this1)")
  with assms g r1 sc obtain flds where r2: "r2 = Inr flds"
    by (cases r2) (auto simp: prepareEntry_def)
  from checkForSpam_success[OF c[unfolded r2]] have fl: "flds = this_fields this1" by simp
  from assms g r1 sc c r2 obtain tf where pf: "processFields L W this1 cfg1 flds = Inr tf"
    by (cases "processFields L W this1 cfg1 flds") (auto simp: prepareEntry_def)
  from assms g r1 sc c r2 pf have res: "this2 = this1\<lparr>this_fields := tf\<rparr>" "cfg = cfg1"
    "ext = applyInternalFields (this1\<lparr>this_fields := tf\<rparr>) tf"
    by (auto simp: prepareEntry_def Let_def)
  from getSiteConfig_success[OF g[unfolded r1]] sc have t1: "this1 = this\<lparr>this_siteConfig := Some cfg1\<rparr>"
    by simp
  then have f1: "this_fields this1 = this_fields this"
    by (metis staticman.select_convs(2) staticman.surjective staticman.update_convs(5))
  from g r1 sc pf res fl f1 t1 show ?thesis by auto
qed

lemma internal_no_proto:
  "''__proto__'' \<notin> set (obj_keys (if c then obj_set [(''_id'', u)] ''_parent'' p else [(''_id'', u)]))"
  by (simp add: keys_obj_set) (simp add: obj_keys_def)

lemma applyInternalFields_props:
  assumes "wf_obj data"
  shows "set (obj_keys (applyInternalFields this data)) =
           {''_id''} \<union> (if truthy (obj_get (this_options this) ''parent'') then {''_parent''} else {})
             \<union> (set (obj_keys data) - {''__proto__''})"
    and "k \<in> set (obj_keys data) \<Longrightarrow> k \<noteq> ''__proto__'' \<Longrightarrow>
           obj_get (applyInternalFields this data) k = obj_get data k"
    and "''_id'' \<notin> set (obj_keys data) \<Longrightarrow> obj_get (applyInternalFields this data) ''_id'' = JStr (this_uid this)"
    and "''_parent'' \<notin> set (obj_keys data) \<Longrightarrow>
           obj_get (applyInternalFields this data) ''_parent'' =
             (if truthy (obj_get (this_options this) ''parent'') then obj_get (this_options this) ''parent'' else JUndefined)"
proof -
  have d: "distinct (map fst data)" using assms by (simp add: wf_obj_def)
  note np = internal_no_proto
  show "set (obj_keys (applyInternalFields this data)) =
           {''_id''} \<union> (if truthy (obj_get (this_options this) ''parent'') then {''_parent''} else {})
             \<union> (set (obj_keys data) - {''__proto__''})"
    by (simp add: applyInternalFields_def Let_def obj_assign_keys[OF np] keys_obj_set) (auto simp: obj_keys_def)
  show "k \<in> set (obj_keys data) \<Longrightarrow> k \<noteq> ''__proto__'' \<Longrightarrow>
           obj_get (applyInternalFields this data) k = obj_get data k"
    by (simp add: applyInternalFields_def Let_def obj_assign_get[OF d np])
  show "''_id'' \<notin> set (obj_keys data) \<Longrightarrow> obj_get (applyInternalFields this data) ''_id'' = JStr (this_uid this)"
    by (simp add: applyInternalFields_def Let_def obj_assign_get[OF d np] obj_get_set_other) (simp add: obj_get_def)
  show "''_parent'' \<notin> set (obj_keys data) \<Longrightarrow>
           obj_get (applyInternalFields this data) ''_parent'' =
             (if truthy (obj_get (this_options this) ''parent'') then obj_get (this_options this) ''parent'' else JUndefined)"
    by (simp add: applyInternalFields_def Let_def obj_assign_get[OF d np] obj_get_set_same) (simp add: obj_get_def)
qed

lemma underscore_prepared:
  "fst (prepareEntry example_lib example_world underscore_request) =
     Inr (underscore_request\<lparr>this_siteConfig := Some example_config\<rparr>, example_config,
          [(''_id'', JStr []), (''_parent'', JStr ''123''), (''name'', JStr ''Ann'')])"
  by code_simp

lemma underscore_written:
  "processEntry example_lib example_world underscore_request =
     (Inr \<lparr>res_fields = [(''name'', JStr ''Ann''), (''_id'', JStr [])], res_redirect = JBool False\<rparr>,
      [ReadFile ''staticman.yml'',
       WriteFile ''posts/123/abc.json''
         (JSON_stringify example_lib
            (JObj [(''_id'', JStr []), (''_parent'', JStr ''123''), (''name'', JStr ''Ann'')]))
         (JStr ''master'') ''New comment''])"
  by code_simp

text \<open>
  Claim C8 (a defect of the code). \<^verbatim>\<open>_applyInternalFields\<close> calls
  \<^verbatim>\<open>Object.assign(internalFields, data)\<close>, so a field of the submission named
  \<^verbatim>\<open>_id\<close> overwrites the identifier. A submitted \<^verbatim>\<open>_id\<close> with an empty value
  passes validation (an empty disallowed field is tolerated): the object handed to
  \<^verbatim>\<open>_createFile\<close> then holds \<^verbatim>\<open>_id\<close> empty, not the unique entry identifier
  \<^verbatim>\<open>abc\<close>, while the file is still written under the name made from that
  identifier.
\<close>

theorem internal_id_blanked:
  "this_uid underscore_request = ''abc''
   \<and> this_fields underscore_request = [(''name'', JStr ''Ann''), (''_id'', JStr [])]
   \<and> serializer_input example_lib example_world underscore_request =
       Some [(''_id'', JStr []), (''_parent'', JStr ''123''), (''name'', JStr ''Ann'')]
   \<and> obj_get [(''_id'', JStr []), (''_parent'', JStr ''123''), (''name'', JStr ''Ann'')] ''_id'' = JStr []
   \<and> snd (processEntry example_lib example_world underscore_request) =
       [ReadFile ''staticman.yml'',
        WriteFile ''posts/123/abc.json''
          (JSON_stringify example_lib
             (JObj [(''_id'', JStr []), (''_parent'', JStr ''123''), (''name'', JStr ''Ann'')]))
          (JStr ''master'') ''New comment'']"
proof -
  have u: "this_uid underscore_request = ''abc''"
    by (simp add: underscore_request_def example_request_def)
  have f: "this_fields underscore_request = [(''name'', JStr ''Ann''), (''_id'', JStr [])]"
    by (simp add: underscore_request_def)
  have a: "serializer_input example_lib example_world underscore_request =
     Some [(''_id'', JStr []), (''_parent'', JStr ''123''), (''name'', JStr ''Ann'')]"
    by (simp add: serializer_input_def underscore_prepared)
  have b: "obj_get [(''_id'', JStr []), (''_parent'', JStr ''123''), (''name'', JStr ''Ann'')] ''_id'' = JStr []"
    by (simp add: obj_get_def)
  have c: "snd (processEntry example_lib example_world underscore_request) =
       [ReadFile ''staticman.yml'',
        WriteFile ''posts/123/abc.json''
          (JSON_stringify example_lib
             (JObj [(''_id'', JStr []), (''_parent'', JStr ''123''), (''name'', JStr ''Ann'')]))
          (JStr ''master'') ''New comment'']"
    by (simp add: underscore_written)
  from u f a b c show ?thesis by (intro conjI)
qed

lemma dispatch_success:
  "fst (dispatch L W this cfg data) = Inr res \<Longrightarrow> res_fields res = this_fields this"
  by (auto simp: dispatch_def Let_def split: if_splits sum.splits)

lemma processEntry_success:
  assumes "fst (processEntry L W this) = Inr res"
  shows "\<exists>this2 cfg ext data ext'. fst (prepareEntry L W this) = Inr (this2, cfg, ext)
           \<and> createFile L cfg ext = (Inr data, ext') \<and> res_fields res = this_fields this2"
proof -
  obtain r tr where p: "prepareEntry L W this = (r, tr)" by (cases "prepareEntry L W this")
  with assms obtain this2 cfg ext where r: "r = Inr (this2, cfg, ext)"
    by (cases r) (auto simp: processEntry_def)
  obtain c ext' where cf: "createFile L cfg ext = (c, ext')" by (cases "createFile L cfg ext")
  with assms p r obtain data where c: "c = Inr data"
    by (cases c) (auto simp: processEntry_def)
  from assms p r cf c have "fst (dispatch L W this2 cfg data) = Inr res"
    by (auto simp: processEntry_def split: prod.splits)
  from dispatch_success[OF this] p r cf c show ?thesis by auto
qed

text \<open>
  Claim C10 (amended: the internal fields are not added, a field of the same name that
  the submission or \<^verbatim>\<open>generatedFields\<close> carries stays). On success, the fields of the
  result are the request's fields after trimming, generated fields and transforms, under
  the configuration the pipeline loaded; each of their names is a name of the
  submission, a name of \<^verbatim>\<open>generatedFields\<close>, or a name of \<^verbatim>\<open>transforms\<close> that is
  a member of \<^verbatim>\<open>Object.prototype\<close>, so \<^verbatim>\<open>_id\<close> and \<^verbatim>\<open>_parent\<close> appear only if
  the submission or \<^verbatim>\<open>generatedFields\<close> carries them; and in the front matter format
  the content field is deleted from the object given to the serializer only: unless it is
  \<^verbatim>\<open>_id\<close> or \<^verbatim>\<open>_parent\<close>, a content field that object held is in the result, with
  the value that became the body.
\<close>

theorem result_fields_frame:
  assumes "wf_obj (this_fields this)"
      and "fst (processEntry L W this) = Inr res"
  shows "processed_fields L W this = Some (res_fields res)
       \<and> (\<exists>cfg g. loaded_config L W this = Some cfg
              \<and> applyGeneratedFields L W (this\<lparr>this_siteConfig := Some cfg\<rparr>) cfg
                   (trimmed_fields (this_fields this)) = Inr g
              \<and> applyTransforms L cfg g = Inr (res_fields res)
              \<and> set (obj_keys (res_fields res)) \<subseteq>
                   set (obj_keys (this_fields this)) \<union> generated_names cfg \<union> inherited_transform_names cfg
              \<and> (\<forall>k \<in> {''_id'', ''_parent''}. k \<in> set (obj_keys (res_fields res)) \<longrightarrow>
                   k \<in> set (obj_keys (this_fields this)) \<or> k \<in> generated_names cfg)
              \<and> (toLowerCase (format cfg) = ''frontmatter'' \<longrightarrow>
                   (\<exists>cf ext data. serializer_input L W this = Some ext
                       \<and> cf \<in> set (declared_content_fields cfg)
                       \<and> createFile L cfg ext = (Inr data, obj_delete ext cf)
                       \<and> cf \<notin> set (obj_keys (obj_delete ext cf))
                       \<and> (cf \<in> set (obj_keys ext) \<and> cf \<notin> {''_id'', ''_parent''} \<longrightarrow>
                            cf \<in> set (obj_keys (res_fields res))
                            \<and> obj_get (res_fields res) cf = obj_index ext cf))))"
proof -
  from processEntry_success[OF assms(2)] obtain this2 cfg ext data ext' where
    pe: "fst (prepareEntry L W this) = Inr (this2, cfg, ext)"
    and cf: "createFile L cfg ext = (Inr data, ext')"
    and rf: "res_fields res = this_fields this2"
    by blast
  from prepareEntry_success[OF pe] obtain this1 tr1 where
    gs: "getSiteConfig L W this False = (Inr this1, tr1)"
    and sc: "this_siteConfig this1 = Some cfg"
    and pf: "processFields L W this1 cfg (this_fields this) = Inr (this_fields this2)"
    and t1: "this1 = this\<lparr>this_siteConfig := Some cfg\<rparr>"
    and ext: "ext = applyInternalFields this2 (this_fields this2)"
    by blast
  have lc: "loaded_config L W this = Some cfg"
    using gs sc by (simp add: loaded_config_def)
  from processFields_keys[OF assms(1) pf] obtain g where
    wf2: "wf_obj (this_fields this2)"
    and sub: "set (obj_keys (this_fields this2)) \<subseteq>
        set (obj_keys (this_fields this)) \<union> generated_names cfg \<union> inherited_transform_names cfg"
    and g: "applyGeneratedFields L W this1 cfg (trimmed_fields (this_fields this)) = Inr g"
    and t: "applyTransforms L cfg g = Inr (this_fields this2)"
    by blast
  have inh: "''_id'' \<notin> inherited_transform_names cfg" "''_parent'' \<notin> inherited_transform_names cfg"
    by (auto simp: inherited_transform_names_def prototype_member_def prototype_functions_def
        split: option.splits)
  have ids: "\<forall>k \<in> {''_id'', ''_parent''}. k \<in> set (obj_keys (this_fields this2)) \<longrightarrow>
                   k \<in> set (obj_keys (this_fields this)) \<or> k \<in> generated_names cfg"
    using sub inh by auto
  have a: "processed_fields L W this = Some (res_fields res)"
    using pe rf by (simp add: processed_fields_def)
  have si: "serializer_input L W this = Some ext"
    using pe by (simp add: serializer_input_def)
  have fm: "toLowerCase (format cfg) = ''frontmatter'' \<longrightarrow>
                   (\<exists>cf ext data. serializer_input L W this = Some ext
                       \<and> cf \<in> set (declared_content_fields cfg)
                       \<and> createFile L cfg ext = (Inr data, obj_delete ext cf)
                       \<and> cf \<notin> set (obj_keys (obj_delete ext cf))
                       \<and> (cf \<in> set (obj_keys ext) \<and> cf \<notin> {''_id'', ''_parent''} \<longrightarrow>
                            cf \<in> set (obj_keys (this_fields this2))
                            \<and> obj_get (this_fields this2) cf = obj_index ext cf))"
  proof
    assume f: "toLowerCase (format cfg) = ''frontmatter''"
    note eq = createFile_frontmatter[OF f, of L ext]
    from cf obtain c rest where d: "declared_content_fields cfg = c # rest"
      unfolding eq by (cases "declared_content_fields cfg") simp_all
    from cf d have ne: "c \<noteq> []" unfolding eq by (auto split: if_splits)
    from cf d ne have e': "ext' = obj_delete ext c"
      unfolding eq by (auto split: sum.splits)
    have v: "c \<in> set (obj_keys ext) \<and> c \<notin> {''_id'', ''_parent''} \<longrightarrow>
        c \<in> set (obj_keys (this_fields this2)) \<and> obj_get (this_fields this2) c = obj_index ext c"
    proof
      assume m: "c \<in> set (obj_keys ext) \<and> c \<notin> {''_id'', ''_parent''}"
      with applyInternalFields_props(1)[OF wf2, of this2]
      have k: "c \<in> set (obj_keys (this_fields this2))" and p: "c \<noteq> ''__proto__''"
        unfolding ext by (auto split: if_splits)
      from m obj_index_own[of c ext] applyInternalFields_props(2)[OF wf2 k p, of this2] k
      show "c \<in> set (obj_keys (this_fields this2)) \<and> obj_get (this_fields this2) c = obj_index ext c"
        unfolding ext by simp
    qed
    from si d cf e' v obj_delete_removed[of c ext] show "\<exists>cf ext data. serializer_input L W this = Some ext
                       \<and> cf \<in> set (declared_content_fields cfg)
                       \<and> createFile L cfg ext = (Inr data, obj_delete ext cf)
                       \<and> cf \<notin> set (obj_keys (obj_delete ext cf))
                       \<and> (cf \<in> set (obj_keys ext) \<and> cf \<notin> {''_id'', ''_parent''} \<longrightarrow>
                            cf \<in> set (obj_keys (this_fields this2))
                            \<and> obj_get (this_fields this2) cf = obj_index ext cf)"
      by (intro exI[of _ c] exI[of _ ext] exI[of _ data]) simp
  qed
  from a lc g t sub ids fm show ?thesis unfolding rf t1 by blast
qed

lemma body_processed:
  "processEntry body_lib example_world body_request =
     (Inr \<lparr>res_fields = [(''name'', JStr ''Ann''), (''body'', JStr ''Hello'')], res_redirect = JBool False\<rparr>,
      [ReadFile ''staticman.yml'',
       WriteFile ''posts/123/abc.md''
         (''---'' @ newline @ ''_id: abc'' @ newline @ ''_parent: 123'' @ newline @ ''name: Ann'' @ newline
            @ ''---'' @ newline @ ''Hello'' @ newline)
         (JStr ''master'') ''New comment''])"
  by code_simp

lemma underscore_processed:
  "fst (processEntry example_lib example_world underscore_request) =
     Inr \<lparr>res_fields = [(''name'', JStr ''Ann''), (''_id'', JStr [])], res_redirect = JBool False\<rparr>"
  by code_simp

theorem result_fields_frame_witness:
  "wf_obj (this_fields body_request)
   \<and> fst (processEntry body_lib example_world body_request) =
       Inr \<lparr>res_fields = [(''name'', JStr ''Ann''), (''body'', JStr ''Hello'')], res_redirect = JBool False\<rparr>
   \<and> processed_fields body_lib example_world body_request = Some [(''name'', JStr ''Ann''), (''body'', JStr ''Hello'')]
   \<and> snd (processEntry body_lib example_world body_request) =
       [ReadFile ''staticman.yml'',
        WriteFile ''posts/123/abc.md''
          (''---'' @ newline @ ''_id: abc'' @ newline @ ''_parent: 123'' @ newline @ ''name: Ann'' @ newline
             @ ''---'' @ newline @ ''Hello'' @ newline)
          (JStr ''master'') ''New comment'']"
proof -
  have h1: "wf_obj (this_fields body_request)" by (simp add: body_request_def wf_obj_def)
  have h2: "fst (processEntry body_lib example_world body_request) =
       Inr \<lparr>res_fields = [(''name'', JStr ''Ann''), (''body'', JStr ''Hello'')], res_redirect = JBool False\<rparr>"
    by (simp add: body_processed)
  from result_fields_frame[OF h1 h2]
  have c: "processed_fields body_lib example_world body_request = Some [(''name'', JStr ''Ann''), (''body'', JStr ''Hello'')]"
    by simp
  have d: "snd (processEntry body_lib example_world body_request) =
       [ReadFile ''staticman.yml'',
        WriteFile ''posts/123/abc.md''
          (''---'' @ newline @ ''_id: abc'' @ newline @ ''_parent: 123'' @ newline @ ''name: Ann'' @ newline
             @ ''---'' @ newline @ ''Hello'' @ newline)
          (JStr ''master'') ''New comment'']"
    by (simp add: body_processed)
  from h1 h2 c d show ?thesis by (intro conjI)
qed

text \<open>The claim as stated fails for a submission that carries a field \<^verbatim>\<open>_id\<close> with
  an empty value, which the validation tolerates: \<^verbatim>\<open>_id\<close> appears in the returned
  fields.\<close>

theorem result_fields_underscore_counterexample:
  "fst (processEntry example_lib example_world underscore_request) =
     Inr \<lparr>res_fields = [(''name'', JStr ''Ann''), (''_id'', JStr [])], res_redirect = JBool False\<rparr>
   \<and> ''_id'' \<in> set (obj_keys [(''name'', JStr ''Ann''), (''_id'', JStr [])])"
  using underscore_processed by (simp add: obj_keys_def)

section \<open>Properties of the target path\<close>

lemma slice_last: "slice_from p (- 1) = ''/'' \<longleftrightarrow> p \<noteq> [] \<and> last p = CHR ''/''"
proof (cases p rule: rev_cases)
  case Nil
  then show ?thesis by (simp add: slice_from_def slice_def)
next
  case (snoc ys y)
  then show ?thesis by (simp add: slice_from_def slice_def Let_def)
qed

lemma slice_butlast: "slice p 0 (- 1) = butlast p"
proof (cases p rule: rev_cases)
  case Nil
  then show ?thesis by (simp add: slice_def)
next
  case (snoc ys y)
  then show ?thesis by (simp add: slice_def Let_def)
qed

lemma getNewFilePath_stem:
  "getNewFilePath this cfg clock_f clock_p data =
     path_stem this cfg clock_f clock_p data @ ''.'' @ ToString (getExtensionForFormat (format cfg))"
  by (simp add: getNewFilePath_def path_stem_def strip_trailing_slash_def Let_def slice_last slice_butlast)

text \<open>
  Claim C5. The target path is the placeholder-resolved path template with one trailing
  separator stripped, joined by \<^verbatim>\<open>/\<close> to the placeholder-resolved file name template
  (the unique entry identifier when none is configured), followed by a dot and the
  extension of the format: \<^verbatim>\<open>json\<close> for json, \<^verbatim>\<open>yml\<close> for yaml and yml,
  \<^verbatim>\<open>md\<close> for frontmatter. The example of the claim, the template
  \<^verbatim>\<open>posts/{options.parent}/{@id}\<close>, is the path template \<^verbatim>\<open>posts/{options.parent}\<close>
  joined to the file name template \<^verbatim>\<open>{@id}\<close>.
\<close>

theorem getNewFilePath_spec:
  "(toLowerCase (format cfg) = ''json'' \<longrightarrow>
      getNewFilePath this cfg clock_f clock_p data = path_stem this cfg clock_f clock_p data @ ''.json'')
   \<and> (toLowerCase (format cfg) = ''yaml'' \<or> toLowerCase (format cfg) = ''yml'' \<longrightarrow>
      getNewFilePath this cfg clock_f clock_p data = path_stem this cfg clock_f clock_p data @ ''.yml'')
   \<and> (toLowerCase (format cfg) = ''frontmatter'' \<longrightarrow>
      getNewFilePath this cfg clock_f clock_p data = path_stem this cfg clock_f clock_p data @ ''.md'')"
  by (auto simp: getNewFilePath_stem getExtensionForFormat_def Let_def)

lemma example_path_json:
  "getNewFilePath example_request example_config (\<lambda>i. 0) (\<lambda>i. 0) (this_fields example_request) = ''posts/123/abc.json''"
  by code_simp

lemma example_path_yaml:
  "getNewFilePath example_request (example_config\<lparr>format := ''yaml''\<rparr>) (\<lambda>i. 0) (\<lambda>i. 0) (this_fields example_request) = ''posts/123/abc.yml''"
  by code_simp

lemma example_path_md:
  "getNewFilePath example_request (example_config\<lparr>format := ''frontmatter''\<rparr>) (\<lambda>i. 0) (\<lambda>i. 0) (this_fields example_request) = ''posts/123/abc.md''"
  by code_simp

lemma example_path_default_name:
  "getNewFilePath example_request (example_config\<lparr>path := ''posts/{options.parent}/'', filename := []\<rparr>)
     (\<lambda>i. 0) (\<lambda>i. 0) (this_fields example_request) = ''posts/123/abc.json''"
  by code_simp

theorem getNewFilePath_spec_witness:
  "toLowerCase (format example_config) = ''json''
   \<and> path_stem example_request example_config (\<lambda>i. 0) (\<lambda>i. 0) (this_fields example_request) @ ''.json''
       = ''posts/123/abc.json''
   \<and> toLowerCase (format (example_config\<lparr>format := ''yaml''\<rparr>)) = ''yaml''
   \<and> path_stem example_request (example_config\<lparr>format := ''yaml''\<rparr>) (\<lambda>i. 0) (\<lambda>i. 0) (this_fields example_request) @ ''.yml''
       = ''posts/123/abc.yml''
   \<and> toLowerCase (format (example_config\<lparr>format := ''frontmatter''\<rparr>)) = ''frontmatter''
   \<and> path_stem example_request (example_config\<lparr>format := ''frontmatter''\<rparr>) (\<lambda>i. 0) (\<lambda>i. 0) (this_fields example_request) @ ''.md''
       = ''posts/123/abc.md''
   \<and> getNewFilePath example_request (example_config\<lparr>path := ''posts/{options.parent}/'', filename := []\<rparr>)
       (\<lambda>i. 0) (\<lambda>i. 0) (this_fields example_request) = ''posts/123/abc.json''"
proof -
  have f1: "toLowerCase (format example_config) = ''json''" by code_simp
  have f2: "toLowerCase (format (example_config\<lparr>format := ''yaml''\<rparr>)) = ''yaml''" by code_simp
  have f3: "toLowerCase (format (example_config\<lparr>format := ''frontmatter''\<rparr>)) = ''frontmatter''" by code_simp
  from getNewFilePath_spec[of example_config example_request "\<lambda>i. 0" "\<lambda>i. 0" "this_fields example_request"] f1
  have c1: "path_stem example_request example_config (\<lambda>i. 0) (\<lambda>i. 0) (this_fields example_request) @ ''.json''
       = ''posts/123/abc.json''"
    unfolding example_path_json by simp
  from getNewFilePath_spec[of "example_config\<lparr>format := ''yaml''\<rparr>" example_request "\<lambda>i. 0" "\<lambda>i. 0" "this_fields example_request"] f2
  have c2: "path_stem example_request (example_config\<lparr>format := ''yaml''\<rparr>) (\<lambda>i. 0) (\<lambda>i. 0) (this_fields example_request) @ ''.yml''
       = ''posts/123/abc.yml''"
    unfolding example_path_yaml by simp
  from getNewFilePath_spec[of "example_config\<lparr>format := ''frontmatter''\<rparr>" example_request "\<lambda>i. 0" "\<lambda>i. 0" "this_fields example_request"] f3
  have c3: "path_stem example_request (example_config\<lparr>format := ''frontmatter''\<rparr>) (\<lambda>i. 0) (\<lambda>i. 0) (this_fields example_request) @ ''.md''
       = ''posts/123/abc.md''"
    unfolding example_path_md by simp
  from f1 c1 f2 c2 f3 c3 example_path_default_name show ?thesis by (intro conjI)
qed

section \<open>Properties of placeholder resolution\<close>

lemma take_append_full:
  assumes "take n xs = ys" and "length ys = n"
  shows "take n (xs @ zs) = ys"
proof -
  from assms have "n \<le> length xs" by (metis length_take min.cobounded1)
  with assms show ?thesis by simp
qed

lemma lt_at_append:
  "line_terminator_at s \<Longrightarrow> line_terminator_at (s @ z)"
  by (cases s) (auto simp: line_terminator_at_def intro: take_append_full)

lemma lt_at_sep:
  assumes "d = CHR ''{'' \<or> d = CHR ''}''"
  shows "line_terminator_at (x @ d # z) = line_terminator_at x"
proof (cases x)
  case Nil
  with assms show ?thesis by (auto simp: line_terminator_at_def)
next
  case (Cons c x')
  show ?thesis
  proof (cases x')
    case Nil
    with Cons assms show ?thesis by (auto simp: line_terminator_at_def)
  next
    case (Cons a x'')
    note c2 = Cons
    show ?thesis
    proof (cases x'')
      case Nil
      with c2 \<open>x = c # x'\<close> assms show ?thesis by (auto simp: line_terminator_at_def)
    next
      case (Cons b r)
      with c2 \<open>x = c # x'\<close> show ?thesis by (simp add: line_terminator_at_def)
    qed
  qed
qed

lemma lt_free_sep:
  assumes "d = CHR ''{'' \<or> d = CHR ''}''"
  shows "lt_free (a @ d # b) = (lt_free a \<and> lt_free b)"
proof (induction a)
  case Nil
  from lt_at_sep[OF assms, of "[]" b] show ?case by (simp add: line_terminator_at_def)
next
  case (Cons c a)
  from lt_at_sep[OF assms, of "c # a" b] Cons show ?case by simp
qed

lemma find_close_sep:
  "CHR ''}'' \<notin> set x \<Longrightarrow> find_close (x @ CHR ''}'' # z) = (if lt_free x then Some x else None)"
proof (induction x)
  case Nil
  then show ?case by simp
next
  case (Cons c x)
  from Cons.prems have c: "c \<noteq> CHR ''}''" and x: "CHR ''}'' \<notin> set x" by auto
  have l: "line_terminator_at (c # x @ CHR ''}'' # z) = line_terminator_at (c # x)"
    using lt_at_sep[of "CHR ''}''" "c # x" z] by simp
  from Cons.IH[OF x] c l show ?case by simp
qed

lemma find_close_dead:
  "CHR ''}'' \<notin> set a \<Longrightarrow> \<not> lt_free a \<Longrightarrow> find_close (a @ z) = None"
proof (induction a)
  case Nil
  then show ?case by simp
next
  case (Cons c a)
  from Cons.prems have c: "c \<noteq> CHR ''}''" and a: "CHR ''}'' \<notin> set a" by auto
  show ?case
  proof (cases "line_terminator_at (c # a)")
    case True
    from lt_at_append[OF True, of z] c show ?thesis by simp
  next
    case False
    with Cons.prems(2) have "\<not> lt_free a" by simp
    from Cons.IH[OF a this] c show ?thesis by simp
  qed
qed

lemma find_close_Some:
  "find_close cs = Some body \<Longrightarrow>
   cs = body @ CHR ''}'' # drop (Suc (length body)) cs \<and> CHR ''}'' \<notin> set body \<and> lt_free body"
proof (induction cs arbitrary: body)
  case Nil
  then show ?case by simp
next
  case (Cons c cs)
  show ?case
  proof (cases "c = CHR ''}''")
    case True
    with Cons.prems show ?thesis by simp
  next
    case False
    with Cons.prems obtain b where b: "find_close cs = Some b" and body: "body = c # b"
      and nl: "\<not> line_terminator_at (c # cs)"
      by (auto split: if_splits)
    from Cons.IH[OF b] have cs: "cs = b @ CHR ''}'' # drop (Suc (length b)) cs"
      and nb: "CHR ''}'' \<notin> set b" and lb: "lt_free b" by simp_all
    from nl cs have "\<not> line_terminator_at (c # b @ CHR ''}'' # drop (Suc (length b)) cs)" by simp
    with lt_at_sep[of "CHR ''}''" "c # b" "drop (Suc (length b)) cs"]
    have "\<not> line_terminator_at (c # b)" by simp
    with cs nb lb False body show ?thesis by simp
  qed
qed


lemma render_Cons: "render (it # its) = item_text it @ render its"
  by (simp add: render_def)

lemma render_parse: "render (parse_template s) = s"
proof (induction s rule: parse_template.induct)
  case 1
  then show ?case by (simp add: render_def)
next
  case (2 c cs)
  show ?case
  proof (cases "c = CHR ''{''")
    case False
    with 2 show ?thesis by (simp add: render_def)
  next
    case True
    show ?thesis
    proof (cases "find_close cs")
      case None
      with True 2 show ?thesis by (simp add: render_def)
    next
      case (Some body)
      from find_close_Some[OF Some] have cs: "cs = body @ CHR ''}'' # drop (Suc (length body)) cs" by simp
      from "2.IH"(2)[OF True Some] have "render (parse_template (drop (Suc (length body)) cs)) = drop (Suc (length body)) cs" .
      then have "render (parse_template (c # cs)) = CHR ''{'' # body @ CHR ''}'' # drop (Suc (length body)) cs"
        using True Some by (simp add: render_def token_text_def)
      with cs True show ?thesis by simp
    qed
  qed
qed

lemma matches_parse: "matches s = map token_text (tokens_of (parse_template s))"
  by (induction s rule: parse_template.induct) (auto simp: token_text_def split: option.splits)

lemma parse_safe: "list_all (\<lambda>body. CHR ''{'' \<notin> set body) (tokens_of (parse_template s)) \<Longrightarrow> safe (parse_template s)"
proof (induction s rule: parse_template.induct)
  case 1
  then show ?case by simp
next
  case (2 c cs)
  show ?case
  proof (cases "c = CHR ''{''")
    case False
    with 2 show ?thesis by simp
  next
    case True
    show ?thesis
    proof (cases "find_close cs")
      case None
      with True "2.prems" have "list_all (\<lambda>body. CHR ''{'' \<notin> set body) (tokens_of (parse_template cs))"
        by simp
      from "2.IH"(1)[OF True None this] True None show ?thesis by (simp add: render_parse)
    next
      case (Some b)
      with True "2.prems" have b: "CHR ''{'' \<notin> set b"
        and r: "list_all (\<lambda>body. CHR ''{'' \<notin> set body) (tokens_of (parse_template (drop (Suc (length b)) cs)))"
        by simp_all
      from find_close_Some[OF Some] "2.IH"(2)[OF True Some r] b True Some show ?thesis by simp
    qed
  qed
qed

lemma get_substitution_plain:
  "\<not> has_dollar_pattern v \<Longrightarrow> get_substitution m pre post v = v"
  by (induction m pre post v rule: get_substitution.induct) auto

lemma no_dollar_pattern: "CHR ''$'' \<notin> set v \<Longrightarrow> \<not> has_dollar_pattern v"
  by (induction v rule: has_dollar_pattern.induct) auto

lemma replace_scan_Nil: "replace_scan tok v pre [] = []"
  by (simp add: replace_scan.simps)

lemma replace_scan_skip:
  assumes "tok = CHR ''{'' # rest_tok" and "c \<noteq> CHR ''{''"
  shows "replace_scan tok v pre (c # s) = c # replace_scan tok v (pre @ [c]) s"
  using assms by (subst replace_scan.simps) auto

lemma replace_scan_literal:
  assumes "tok = CHR ''{'' # rest_tok" and "CHR ''{'' \<notin> set t"
  shows "replace_scan tok v pre (t @ s) = t @ replace_scan tok v (pre @ t) s"
  using assms(2)
proof (induction t arbitrary: pre)
  case Nil
  then show ?case by simp
next
  case (Cons c t)
  then have c: "c \<noteq> CHR ''{''" and t: "CHR ''{'' \<notin> set t" by auto
  show ?case
    using replace_scan_skip[OF assms(1) c, of v pre "t @ s"] Cons.IH[OF t, of "pre @ [c]"]
    by simp
qed

lemma replace_scan_hit:
  assumes "tok \<noteq> []" and "\<not> has_dollar_pattern v"
  shows "replace_scan tok v pre (tok @ s) = v @ replace_scan tok v (pre @ tok) s"
  using assms by (subst replace_scan.simps) (simp add: get_substitution_plain)

lemma replace_scan_miss:
  assumes "take (length tok) (c # s) \<noteq> tok"
  shows "replace_scan tok v pre (c # s) = c # replace_scan tok v (pre @ [c]) s"
  using assms by (subst replace_scan.simps) auto

lemma replace_scan_dead_brace:
  assumes "CHR ''}'' \<notin> set p" and "lt_free p" and "find_close s = None"
  shows "replace_scan (token_text p) v pre (CHR ''{'' # s) =
         CHR ''{'' # replace_scan (token_text p) v (pre @ ''{'') s"
proof (rule replace_scan_miss)
  show "take (length (token_text p)) (CHR ''{'' # s) \<noteq> token_text p"
  proof
    assume "take (length (token_text p)) (CHR ''{'' # s) = token_text p"
    then have t: "take (Suc (length p)) s = p @ ''}''" by (simp add: token_text_def)
    have "s = take (Suc (length p)) s @ drop (Suc (length p)) s" by simp
    with t have "s = p @ CHR ''}'' # drop (Suc (length p)) s" by simp
    with find_close_sep[OF assms(1), of "drop (Suc (length p)) s"] assms(2)
    have "find_close s = Some p" by simp
    with assms(3) show False by simp
  qed
qed

lemma token_prefix_eq:
  assumes "CHR ''}'' \<notin> set p" and "CHR ''}'' \<notin> set b"
      and "take (length (p @ ''}'')) (b @ CHR ''}'' # s) = p @ ''}''"
  shows "p = b"
  using assms
proof (induction p arbitrary: b)
  case Nil
  then show ?case by (cases b) auto
next
  case (Cons x p)
  show ?case
  proof (cases b)
    case Nil
    with Cons.prems show ?thesis by auto
  next
    case (Cons y b')
    with Cons.prems Cons.IH[of b'] show ?thesis by auto
  qed
qed

lemma replace_scan_other_token:
  assumes "CHR ''}'' \<notin> set p" and "CHR ''}'' \<notin> set b" and "CHR ''{'' \<notin> set b" and "p \<noteq> b"
  shows "replace_scan (token_text p) v pre (token_text b @ s) =
         token_text b @ replace_scan (token_text p) v (pre @ token_text b) s"
proof -
  have nt: "take (length (token_text p)) (token_text b @ s) \<noteq> token_text p"
  proof
    assume "take (length (token_text p)) (token_text b @ s) = token_text p"
    then have "take (length (p @ ''}'')) (b @ CHR ''}'' # s) = p @ ''}''"
      by (simp add: token_text_def)
    from token_prefix_eq[OF assms(1,2) this] assms(4) show False by simp
  qed
  have step: "replace_scan (token_text p) v pre (token_text b @ s) =
      CHR ''{'' # replace_scan (token_text p) v (pre @ ''{'') (b @ ''}'' @ s)"
    using nt by (subst replace_scan.simps) (simp add: token_text_def)
  have lit: "CHR ''{'' \<notin> set (b @ ''}'')" using assms(3) by simp
  have "replace_scan (token_text p) v (pre @ ''{'') ((b @ ''}'') @ s) =
      (b @ ''}'') @ replace_scan (token_text p) v ((pre @ ''{'') @ (b @ ''}'')) s"
    by (rule replace_scan_literal[OF _ lit]) (simp add: token_text_def)
  with step show ?thesis by (simp add: token_text_def)
qed

lemma find_close_subst:
  "CHR ''}'' \<notin> set a \<Longrightarrow> safe its \<Longrightarrow> find_close (a @ render its) = None \<Longrightarrow>
   find_close (a @ render (map (subst_item p v) its)) = None"
proof (induction its arbitrary: a)
  case Nil
  then show ?case by simp
next
  case (Cons it its)
  show ?case
  proof (cases it)
    case (Lit t)
    from Cons.prems(2) Lit have s: "safe its" by simp
    show ?thesis
    proof (cases "CHR ''}'' \<in> set t")
      case False
      with Cons.prems(1) have a: "CHR ''}'' \<notin> set (a @ t)" by simp
      from Cons.prems(3) Lit have "find_close ((a @ t) @ render its) = None" by (simp add: render_Cons)
      from Cons.IH[OF a s this] Lit show ?thesis by (simp add: render_Cons)
    next
      case True
      then obtain t1 t2 where t: "t = t1 @ CHR ''}'' # t2" and t1: "CHR ''}'' \<notin> set t1"
        by (meson split_list_first)
      from Cons.prems(1) t1 have a: "CHR ''}'' \<notin> set (a @ t1)" by simp
      from Cons.prems(3) Lit t have "find_close ((a @ t1) @ CHR ''}'' # t2 @ render its) = None"
        by (simp add: render_Cons)
      with find_close_sep[OF a, of "t2 @ render its"] have "\<not> lt_free (a @ t1)"
        by (auto split: if_splits)
      with find_close_sep[OF a, of "t2 @ render (map (subst_item p v) its)"] Lit t
      show ?thesis by (simp add: render_Cons)
    qed
  next
    case (Tok b)
    from Cons.prems(2) Tok have b: "CHR ''{'' \<notin> set b" "CHR ''}'' \<notin> set b" "lt_free b" and s: "safe its"
      by simp_all
    from Cons.prems(1) b have a: "CHR ''}'' \<notin> set (a @ CHR ''{'' # b)" by simp
    from Cons.prems(3) Tok have "find_close ((a @ CHR ''{'' # b) @ CHR ''}'' # render its) = None"
      by (simp add: render_Cons token_text_def)
    with find_close_sep[OF a, of "render its"] have nl: "\<not> lt_free (a @ CHR ''{'' # b)"
      by (auto split: if_splits)
    with lt_free_sep[of "CHR ''{''" a b] b(3) have na: "\<not> lt_free a" by simp
    show ?thesis
    proof (cases "b = p")
      case True
      from find_close_dead[OF Cons.prems(1) na, of "v @ render (map (subst_item p v) its)"] Tok True
      show ?thesis by (simp add: render_Cons)
    next
      case False
      from find_close_sep[OF a, of "render (map (subst_item p v) its)"] nl Tok False
      show ?thesis by (simp add: render_Cons token_text_def)
    qed
  qed
qed

lemma subst_item_safe:
  "CHR ''{'' \<notin> set v \<Longrightarrow> safe its \<Longrightarrow> safe (map (subst_item p v) its)"
proof (induction its)
  case Nil
  then show ?case by simp
next
  case (Cons it its)
  show ?case
  proof (cases it)
    case (Lit t)
    from Cons.prems(2) Lit have s: "safe its" by simp
    note ih = Cons.IH[OF Cons.prems(1) s]
    show ?thesis
    proof (cases "t = ''{''")
      case True
      with Cons.prems(2) Lit have "find_close ([] @ render its) = None" by simp
      from find_close_subst[OF _ s this, of p v] ih Lit True show ?thesis by simp
    next
      case False
      with Cons.prems(2) Lit ih show ?thesis by simp
    qed
  next
    case (Tok b)
    with Cons show ?thesis by auto
  qed
qed

lemma replace_scan_items:
  assumes "CHR ''}'' \<notin> set p" and "lt_free p" and "\<not> has_dollar_pattern v"
  shows "safe its \<Longrightarrow>
         replace_scan (token_text p) v pre (render its) = render (map (subst_item p v) its)"
proof (induction its arbitrary: pre)
  case Nil
  then show ?case by (simp add: render_def replace_scan_Nil)
next
  case (Cons it its)
  show ?case
  proof (cases it)
    case (Lit t)
    from Cons.prems Lit have rest: "safe its" by simp
    show ?thesis
    proof (cases "t = ''{''")
      case True
      with Cons.prems Lit have "find_close (render its) = None" by simp
      from replace_scan_dead_brace[OF assms(1,2) this, of v pre] Cons.IH[OF rest, of "pre @ ''{''"] Lit True
      show ?thesis by (simp add: render_Cons)
    next
      case False
      with Cons.prems Lit have "CHR ''{'' \<notin> set t" by simp
      from replace_scan_literal[OF _ this, of "token_text p" "p @ ''}''" v pre "render its"]
      have "replace_scan (token_text p) v pre (t @ render its) = t @ replace_scan (token_text p) v (pre @ t) (render its)"
        by (simp add: token_text_def)
      with Lit Cons.IH[OF rest, of "pre @ t"] show ?thesis by (simp add: render_Cons)
    qed
  next
    case (Tok b)
    from Cons.prems Tok have b: "CHR ''}'' \<notin> set b" "CHR ''{'' \<notin> set b" and rest: "safe its" by simp_all
    show ?thesis
    proof (cases "b = p")
      case True
      have "replace_scan (token_text p) v pre (token_text p @ render its) =
            v @ replace_scan (token_text p) v (pre @ token_text p) (render its)"
        by (rule replace_scan_hit[OF _ assms(3)]) (simp add: token_text_def)
      with Tok True Cons.IH[OF rest, of "pre @ token_text p"] show ?thesis by (simp add: render_Cons)
    next
      case False
      from False have ne: "p \<noteq> b" by simp
      from replace_scan_other_token[OF assms(1) b ne, of v pre "render its"]
        Tok False Cons.IH[OF rest, of "pre @ token_text b"]
      show ?thesis by (simp add: render_Cons)
    qed
  qed
qed

lemma slice_token: "slice (token_text p) 1 (- 1) = p"
  by (simp add: slice_def token_text_def Let_def)

lemma resolve_subst:
  "map (resolve_item (\<lambda>b. g (Suc i + first_index b ps) b) ps) (map (subst_item p (g i p)) its) =
   map (resolve_item (\<lambda>b. g (i + first_index b (p # ps)) b) (p # ps)) its"
proof (induction its)
  case Nil
  then show ?case by simp
next
  case (Cons it its)
  then show ?case by (cases it) auto
qed

lemma resolve_loop_items:
  "safe its \<Longrightarrow>
   \<forall>p \<in> set ps. CHR ''}'' \<notin> set p \<and> lt_free p
        \<and> (\<forall>now. CHR ''{'' \<notin> set (placeholder_value this base now p)
                  \<and> \<not> has_dollar_pattern (placeholder_value this base now p)) \<Longrightarrow>
   resolve_loop this base clock i (map token_text ps) (render its) =
     render (map (resolve_item (\<lambda>b. placeholder_value this base (clock (i + first_index b ps)) b) ps) its)"
proof (induction ps arbitrary: its i)
  case Nil
  have "map (resolve_item (\<lambda>b. placeholder_value this base (clock (i + first_index b [])) b) []) its = its"
  proof (rule map_idI)
    fix it show "resolve_item (\<lambda>b. placeholder_value this base (clock (i + first_index b [])) b) [] it = it"
      by (cases it) simp_all
  qed
  then show ?case by simp
next
  case (Cons p ps)
  let ?g = "\<lambda>j b. placeholder_value this base (clock j) b"
  from Cons.prems(2) have p: "CHR ''}'' \<notin> set p" "lt_free p" "CHR ''{'' \<notin> set (?g i p)"
      "\<not> has_dollar_pattern (?g i p)"
    and ps: "\<forall>q \<in> set ps. CHR ''}'' \<notin> set q \<and> lt_free q
        \<and> (\<forall>now. CHR ''{'' \<notin> set (placeholder_value this base now q)
                  \<and> \<not> has_dollar_pattern (placeholder_value this base now q))"
    by simp_all
  let ?its1 = "map (subst_item p (?g i p)) its"
  have ok1: "safe ?its1" using subst_item_safe[OF p(3) Cons.prems(1)] .
  have v: "ToString (newText this base (clock i) (slice (token_text p) 1 (- 1))) = ?g i p"
    by (simp add: slice_token placeholder_value_def)
  have "resolve_loop this base clock i (map token_text (p # ps)) (render its) =
        resolve_loop this base clock (Suc i) (map token_text ps) (replace_all (token_text p) (?g i p) (render its))"
    by (simp add: Let_def v)
  also have "replace_all (token_text p) (?g i p) (render its) = render ?its1"
    unfolding replace_all_def by (rule replace_scan_items[OF p(1) p(2) p(4) Cons.prems(1)])
  also have "resolve_loop this base clock (Suc i) (map token_text ps) (render ?its1) =
        render (map (resolve_item (\<lambda>b. ?g (Suc i + first_index b ps) b) ps) ?its1)"
    by (rule Cons.IH[OF ok1 ps])
  also have "map (resolve_item (\<lambda>b. ?g (Suc i + first_index b ps) b) ps) ?its1 =
        map (resolve_item (\<lambda>b. ?g (i + first_index b (p # ps)) b) (p # ps)) its"
    by (rule resolve_subst[of "?g"])
  finally show ?case .
qed

lemma resolve_all_tokens:
  "render (map (resolve_item f (tokens_of its)) its) = concat (map (item_value f) its)"
proof -
  have "\<And>ps. set (tokens_of its) \<subseteq> set ps \<Longrightarrow>
        render (map (resolve_item f ps) its) = concat (map (item_value f) its)"
  proof (induction its)
    case Nil
    then show ?case by (simp add: render_def)
  next
    case (Cons it its)
    then show ?case by (cases it) (auto simp: render_def)
  qed
  then show ?thesis by blast
qed

lemma tokens_of_set: "p \<in> set (tokens_of its) \<longleftrightarrow> Tok p \<in> set its"
proof (induction its)
  case Nil
  then show ?case by simp
next
  case (Cons it its)
  then show ?case by (cases it) auto
qed

lemma safe_tokens: "safe its \<Longrightarrow> Tok b \<in> set its \<Longrightarrow> CHR ''}'' \<notin> set b \<and> lt_free b"
proof (induction its)
  case Nil
  then show ?case by simp
next
  case (Cons it its)
  then show ?case by (cases it) auto
qed

lemma digits_of_digit: "c \<in> set (digits_of n) \<Longrightarrow> is_digit c"
proof (induction n arbitrary: c rule: digits_of.induct)
  case (1 n)
  show ?case
  proof (cases "n < 10")
    case True
    with "1.prems" have "c = char_of (48 + n)" by (simp add: digits_of.simps)
    with True show ?thesis by (simp add: is_digit_def)
  next
    case False
    with "1.prems" have "c \<in> set (digits_of (n div 10)) \<or> c = char_of (48 + n mod 10)"
      by (subst (asm) digits_of.simps) auto
    then show ?thesis
    proof
      assume "c \<in> set (digits_of (n div 10))"
      from "1.IH"[OF False this] show ?thesis .
    next
      assume c: "c = char_of (48 + n mod 10)"
      have "n mod 10 < 10" by simp
      then have "(48 + n mod 10) mod 256 = 48 + n mod 10" by simp
      with c show ?thesis by (simp add: is_digit_def)
    qed
  qed
qed

lemma show_int_plain: "CHR ''{'' \<notin> set (show_int n) \<and> CHR ''$'' \<notin> set (show_int n)"
proof -
  have d: "\<And>k. CHR ''{'' \<notin> set (digits_of k) \<and> CHR ''$'' \<notin> set (digits_of k)"
  proof -
    fix k
    have "\<not> is_digit CHR ''{''" "\<not> is_digit CHR ''$''" by (simp_all add: is_digit_def)
    with digits_of_digit[of _ k] show "CHR ''{'' \<notin> set (digits_of k) \<and> CHR ''$'' \<notin> set (digits_of k)"
      by blast
  qed
  show ?thesis using d by (simp add: show_int_def)
qed

lemma placeholder_value_time:
  "p \<noteq> ''@timestamp'' \<Longrightarrow> placeholder_value this base now p = placeholder_value this base now' p"
  by (simp add: placeholder_value_def newText_def)

lemma placeholder_value_timestamp:
  "placeholder_value this base now ''@timestamp'' = show_int now"
  by (simp add: placeholder_value_def newText_def)

lemma resolvePlaceholders_loop:
  "resolvePlaceholders this clock subject base = resolve_loop this base clock 0 (matches subject) subject"
  by (cases "matches subject") (simp_all add: resolvePlaceholders_def)

lemma resolvePlaceholders_plain:
  assumes "plain_names subject"
      and "plain_values (token_value this base clock subject) subject"
  shows "resolvePlaceholders this clock subject base = spec_substitute (token_value this base clock subject) subject"
proof -
  let ?its = "parse_template subject"
  let ?f = "token_value this base clock subject"
  have ok: "safe ?its"
    using assms(1) by (simp add: plain_names_def placeholders_def parse_safe)
  have vals: "\<forall>p \<in> set (tokens_of ?its). CHR ''}'' \<notin> set p \<and> lt_free p
        \<and> (\<forall>now. CHR ''{'' \<notin> set (placeholder_value this base now p)
                  \<and> \<not> has_dollar_pattern (placeholder_value this base now p))"
  proof
    fix p assume m: "p \<in> set (tokens_of ?its)"
    then have "Tok p \<in> set ?its" by (simp add: tokens_of_set)
    from safe_tokens[OF ok this] have n: "CHR ''}'' \<notin> set p \<and> lt_free p" .
    have "\<forall>now. CHR ''{'' \<notin> set (placeholder_value this base now p)
                  \<and> \<not> has_dollar_pattern (placeholder_value this base now p)"
    proof (cases "p = ''@timestamp''")
      case True
      then show ?thesis
        using show_int_plain by (simp add: placeholder_value_timestamp no_dollar_pattern)
    next
      case False
      from assms(2) m have "CHR ''{'' \<notin> set (?f p) \<and> \<not> has_dollar_pattern (?f p)"
        by (simp add: plain_values_def placeholders_def list_all_iff)
      then show ?thesis
        unfolding token_value_def using placeholder_value_time[OF False, of this base] by metis
    qed
    with n show "CHR ''}'' \<notin> set p \<and> lt_free p
        \<and> (\<forall>now. CHR ''{'' \<notin> set (placeholder_value this base now p)
                  \<and> \<not> has_dollar_pattern (placeholder_value this base now p))"
      by blast
  qed
  have "resolvePlaceholders this clock subject base =
        resolve_loop this base clock 0 (map token_text (tokens_of ?its)) (render ?its)"
    by (simp add: resolvePlaceholders_loop matches_parse render_parse)
  also have "\<dots> = render (map (resolve_item (\<lambda>b. placeholder_value this base (clock (0 + first_index b (tokens_of ?its))) b) (tokens_of ?its)) ?its)"
    by (rule resolve_loop_items[OF ok vals])
  also have "(\<lambda>b. placeholder_value this base (clock (0 + first_index b (tokens_of ?its))) b) = ?f"
    by (rule ext) (simp add: token_value_def placeholders_def)
  also have "render (map (resolve_item ?f (tokens_of ?its)) ?its) = spec_substitute ?f subject"
    by (simp add: resolve_all_tokens spec_substitute_def)
  finally show ?thesis .
qed


text \<open>
  Claim C2 (amended: the placeholders are collected once from the template and replaced
  one after the other, each replacement running over the whole current text). The
  placeholders are the matches of the pattern in the template, processed in the order
  of the template. A template with no placeholder is returned unchanged. When no
  placeholder name contains an opening brace and no value of a placeholder contains an
  opening brace or one of the patterns \<^verbatim>\<open>$$\<close>, \<^verbatim>\<open>$&\<close>, \<^verbatim>\<open>$`\<close>, \<^verbatim>\<open>$'\<close>, the
  result is the template with every occurrence of each placeholder replaced by its
  value in one pass, the values not being looked at again. The value of
  \<^verbatim>\<open>@timestamp\<close> is the time in milliseconds read when the first placeholder of that
  name is processed, the value of \<^verbatim>\<open>@id\<close> is the unique entry identifier, and the
  value of any other name is the text of the dotted-path lookup in the context, or the
  empty string when the lookup is falsy.
\<close>

theorem resolvePlaceholders_spec:
  "matches subject = map token_text (placeholders subject)
   \<and> (placeholders subject = [] \<longrightarrow> resolvePlaceholders this clock subject base = subject)
   \<and> (plain_names subject \<and> plain_values (token_value this base clock subject) subject \<longrightarrow>
        resolvePlaceholders this clock subject base =
          spec_substitute (token_value this base clock subject) subject)
   \<and> token_value this base clock subject ''@timestamp'' =
        show_int (clock (first_index ''@timestamp'' (placeholders subject)))
   \<and> token_value this base clock subject ''@id'' = this_uid this
   \<and> (\<forall>p. p \<noteq> ''@timestamp'' \<and> p \<noteq> ''@id'' \<longrightarrow>
         token_value this base clock subject p =
           (if truthy (objectPath_get base p) then ToString (objectPath_get base p) else []))"
proof -
  have m: "matches subject = map token_text (placeholders subject)"
    by (simp add: matches_parse placeholders_def)
  have a: "placeholders subject = [] \<longrightarrow> resolvePlaceholders this clock subject base = subject"
    by (simp add: resolvePlaceholders_def m)
  have b: "plain_names subject \<and> plain_values (token_value this base clock subject) subject \<longrightarrow>
        resolvePlaceholders this clock subject base =
          spec_substitute (token_value this base clock subject) subject"
    using resolvePlaceholders_plain by blast
  have c: "token_value this base clock subject ''@timestamp'' =
        show_int (clock (first_index ''@timestamp'' (placeholders subject)))"
    by (simp add: token_value_def placeholder_value_def newText_def)
  have d: "token_value this base clock subject ''@id'' = this_uid this"
    by (simp add: token_value_def placeholder_value_def newText_def)
  have e: "\<forall>p. p \<noteq> ''@timestamp'' \<and> p \<noteq> ''@id'' \<longrightarrow>
         token_value this base clock subject p =
           (if truthy (objectPath_get base p) then ToString (objectPath_get base p) else [])"
    by (simp add: token_value_def placeholder_value_def newText_def Let_def)
  from m a b c d e show ?thesis by blast
qed

theorem resolvePlaceholders_spec_witness:
  "placeholders ''posts/2016'' = []
   \<and> resolvePlaceholders example_request (ticking_clock 1700) ''posts/2016'' example_context = ''posts/2016''
   \<and> matches example_template =
        [''{@id}'', ''{@timestamp}'', ''{fields.none}'', ''{@id}'', ''{options.parent}'', ''{@timestamp}'']
   \<and> plain_names example_template
   \<and> plain_values (token_value example_request example_context (ticking_clock 1700) example_template)
        example_template
   \<and> resolvePlaceholders example_request (ticking_clock 1700) example_template example_context =
        ''abc {a'' @ [CHR 0xE2, CHR 0x80, CHR 0xA8] @ ''b} 1701 {x'' @ [CHR 0x0A] @ ''abc/123-1701''
   \<and> token_value example_request example_context (ticking_clock 1700) example_template ''@timestamp'' = ''1701''
   \<and> token_value example_request example_context (ticking_clock 1700) example_template ''options.parent'' = ''123''
   \<and> token_value example_request example_context (ticking_clock 1700) example_template ''fields.none'' = []"
proof -
  let ?f = "token_value example_request example_context (ticking_clock 1700) example_template"
  note plain = resolvePlaceholders_spec[of "''posts/2016''" example_request "ticking_clock 1700" example_context]
  note ex = resolvePlaceholders_spec[of example_template example_request "ticking_clock 1700" example_context]
  have h0: "placeholders ''posts/2016'' = []" by code_simp
  have c0: "resolvePlaceholders example_request (ticking_clock 1700) ''posts/2016'' example_context = ''posts/2016''"
    by (rule plain[THEN conjunct2, THEN conjunct1, THEN mp, OF h0])
  have p: "map token_text (placeholders example_template) =
        [''{@id}'', ''{@timestamp}'', ''{fields.none}'', ''{@id}'', ''{options.parent}'', ''{@timestamp}'']"
    by code_simp
  have "matches example_template = map token_text (placeholders example_template)"
    by (rule ex[THEN conjunct1])
  then have c1: "matches example_template =
        [''{@id}'', ''{@timestamp}'', ''{fields.none}'', ''{@id}'', ''{options.parent}'', ''{@timestamp}'']"
    unfolding p .
  have h1: "plain_names example_template" by code_simp
  have h2: "plain_values ?f example_template" by code_simp
  have v: "spec_substitute ?f example_template =
        ''abc {a'' @ [CHR 0xE2, CHR 0x80, CHR 0xA8] @ ''b} 1701 {x'' @ [CHR 0x0A] @ ''abc/123-1701''"
    by code_simp
  have "resolvePlaceholders example_request (ticking_clock 1700) example_template example_context =
          spec_substitute ?f example_template"
    by (rule ex[THEN conjunct2, THEN conjunct2, THEN conjunct1, THEN mp, OF conjI[OF h1 h2]])
  then have c2: "resolvePlaceholders example_request (ticking_clock 1700) example_template example_context =
        ''abc {a'' @ [CHR 0xE2, CHR 0x80, CHR 0xA8] @ ''b} 1701 {x'' @ [CHR 0x0A] @ ''abc/123-1701''"
    unfolding v .
  have t: "show_int (ticking_clock 1700 (first_index ''@timestamp'' (placeholders example_template))) = ''1701''"
    by code_simp
  have "?f ''@timestamp'' =
      show_int (ticking_clock 1700 (first_index ''@timestamp'' (placeholders example_template)))"
    by (rule ex[THEN conjunct2, THEN conjunct2, THEN conjunct2, THEN conjunct1])
  then have c3: "?f ''@timestamp'' = ''1701''" unfolding t .
  note others = ex[THEN conjunct2, THEN conjunct2, THEN conjunct2, THEN conjunct2, THEN conjunct2, THEN spec, THEN mp]
  have n1: "''options.parent'' \<noteq> ''@timestamp'' \<and> ''options.parent'' \<noteq> ''@id''" by simp
  have l1: "(if truthy (objectPath_get example_context ''options.parent'')
             then ToString (objectPath_get example_context ''options.parent'') else []) = ''123''"
    by code_simp
  have "?f ''options.parent'' =
      (if truthy (objectPath_get example_context ''options.parent'')
       then ToString (objectPath_get example_context ''options.parent'') else [])"
    by (rule others[OF n1])
  then have c4: "?f ''options.parent'' = ''123''" unfolding l1 .
  have n2: "''fields.none'' \<noteq> ''@timestamp'' \<and> ''fields.none'' \<noteq> ''@id''" by simp
  have l2: "(if truthy (objectPath_get example_context ''fields.none'')
             then ToString (objectPath_get example_context ''fields.none'') else []) = []"
    by code_simp
  have "?f ''fields.none'' =
      (if truthy (objectPath_get example_context ''fields.none'')
       then ToString (objectPath_get example_context ''fields.none'') else [])"
    by (rule others[OF n2])
  then have c5: "?f ''fields.none'' = []" unfolding l2 .
  from h0 c0 c1 h1 h2 c2 c3 c4 c5 show ?thesis by (intro conjI)
qed

text \<open>
  The claim as stated fails when a value holds the text of a placeholder that comes
  later in the template: the value is rewritten by the later replacement, where one pass
  over the template leaves it as it is. Each condition of the amended statement is
  needed: a value that is an opening brace makes a placeholder with the text that
  follows it; a placeholder whose name contains an opening brace is rewritten by the
  replacement of the placeholder inside it; each of the four dollar patterns is expanded
  in a value. And the number 0, which the lookup finds, is replaced by the empty string.
\<close>

theorem resolvePlaceholders_rescan_counterexample:
  "resolvePlaceholders rescan_request (ticking_clock 0) ''{fields.a} {fields.b}'' rescan_context = ''X X''
   \<and> spec_substitute (token_value rescan_request rescan_context (ticking_clock 0) ''{fields.a} {fields.b}'')
        ''{fields.a} {fields.b}'' = ''{fields.b} X''
   \<and> resolvePlaceholders rescan_request (ticking_clock 0) ''{fields.c}fields.b} {fields.b}'' rescan_context = ''X X''
   \<and> spec_substitute (token_value rescan_request rescan_context (ticking_clock 0) ''{fields.c}fields.b} {fields.b}'')
        ''{fields.c}fields.b} {fields.b}'' = ''{fields.b} X''
   \<and> resolvePlaceholders rescan_request (ticking_clock 0) ''{fields.b} {{fields.b}'' rescan_context = ''X {X''
   \<and> spec_substitute (token_value rescan_request rescan_context (ticking_clock 0) ''{fields.b} {{fields.b}'')
        ''{fields.b} {{fields.b}'' = ''X ''
   \<and> map (\<lambda>k. resolvePlaceholders rescan_request (ticking_clock 0) (''<{fields.'' @ k @ ''}>'') rescan_context)
        [''d'', ''e'', ''f'', ''g''] = [''<{fields.d}>'', ''<$>'', ''<<>'', ''<>>'']
   \<and> map (\<lambda>k. spec_substitute
               (token_value rescan_request rescan_context (ticking_clock 0) (''<{fields.'' @ k @ ''}>''))
               (''<{fields.'' @ k @ ''}>''))
        [''d'', ''e'', ''f'', ''g''] =
        [''<$&>'', ''<$$>'', [CHR ''<'', CHR ''$'', CHR 0x60, CHR ''>''], [CHR ''<'', CHR ''$'', CHR 0x27, CHR ''>'']]
   \<and> objectPath_get rescan_context ''fields.n'' = JNum 0
   \<and> resolvePlaceholders rescan_request (ticking_clock 0) ''<{fields.n}>'' rescan_context = ''<>''"
proof -
  have a1: "resolvePlaceholders rescan_request (ticking_clock 0) ''{fields.a} {fields.b}'' rescan_context = ''X X''"
    by code_simp
  have a2: "spec_substitute (token_value rescan_request rescan_context (ticking_clock 0) ''{fields.a} {fields.b}'')
        ''{fields.a} {fields.b}'' = ''{fields.b} X''"
    by code_simp
  have b1: "resolvePlaceholders rescan_request (ticking_clock 0) ''{fields.c}fields.b} {fields.b}'' rescan_context = ''X X''"
    by code_simp
  have b2: "spec_substitute (token_value rescan_request rescan_context (ticking_clock 0) ''{fields.c}fields.b} {fields.b}'')
        ''{fields.c}fields.b} {fields.b}'' = ''{fields.b} X''"
    by code_simp
  have c1: "resolvePlaceholders rescan_request (ticking_clock 0) ''{fields.b} {{fields.b}'' rescan_context = ''X {X''"
    by code_simp
  have c2: "spec_substitute (token_value rescan_request rescan_context (ticking_clock 0) ''{fields.b} {{fields.b}'')
        ''{fields.b} {{fields.b}'' = ''X ''"
    by code_simp
  have d1: "map (\<lambda>k. resolvePlaceholders rescan_request (ticking_clock 0) (''<{fields.'' @ k @ ''}>'') rescan_context)
        [''d'', ''e'', ''f'', ''g''] = [''<{fields.d}>'', ''<$>'', ''<<>'', ''<>>'']"
    by code_simp
  have d2: "map (\<lambda>k. spec_substitute
               (token_value rescan_request rescan_context (ticking_clock 0) (''<{fields.'' @ k @ ''}>''))
               (''<{fields.'' @ k @ ''}>''))
        [''d'', ''e'', ''f'', ''g''] =
        [''<$&>'', ''<$$>'', [CHR ''<'', CHR ''$'', CHR 0x60, CHR ''>''], [CHR ''<'', CHR ''$'', CHR 0x27, CHR ''>'']]"
    by code_simp
  have e1: "objectPath_get rescan_context ''fields.n'' = JNum 0" by code_simp
  have e2: "resolvePlaceholders rescan_request (ticking_clock 0) ''<{fields.n}>'' rescan_context = ''<>''"
    by code_simp
  from a1 a2 b1 b2 c1 c2 d1 d2 e1 e2 show ?thesis by (intro conjI)
qed

end
